theory Spec2Isabelle
  imports Main "HOL-Library.Word"
begin

section \<open>Schema model\<close>

text \<open>
  The schema document (\<open>Idl\<close>) as the account-data viewer declares it. A type
  descriptor is a JSON string (\<open>TName\<close>: one of the twelve primitive names, or any
  other string, which the decoder's \<open>default\<close> branch handles) or an object with one
  of the keys \<open>vec\<close>, \<open>option\<close>, \<open>array\<close>, \<open>defined\<close>. The length of an
  \<open>array\<close> type is a natural number. The optional keys \<open>accounts\<close>, \<open>types\<close>,
  \<open>type\<close> (of an account) and \<open>fields\<close> (of a variant) are options.

  Strings of the program are HOL strings holding the UTF-8 bytes of a well-formed string,
  one \<open>char\<close> per byte, so that \<open>TextEncoder.encode\<close> is the byte-wise image.
\<close>

type_synonym byte = "8 word"

datatype IdlType =
    TName string
  | TVec IdlType
  | TOption IdlType
  | TArray IdlType nat
  | TDefined string

text \<open>A struct field \<open>{name, type}\<close>.\<close>

type_synonym IdlField = "string \<times> IdlType"

text \<open>
  An element of a variant's flat \<open>fields\<close> array: a field object \<open>{name, type}\<close>
  (an object with none of the keys \<open>vec\<close>, \<open>option\<close>, \<open>array\<close>, \<open>defined\<close>) or a
  type descriptor.
\<close>

datatype VariantElem =
    ElemField string IdlType
  | ElemType IdlType

text \<open>
  The four forms of a variant's \<open>fields\<close>: a flat array, \<open>{kind: "struct", fields}\<close>,
  \<open>{kind: "tuple", types}\<close>, and any other object.
\<close>

datatype VariantFields =
    FlatArray "VariantElem list"
  | KindStruct "IdlField list"
  | KindTuple "IdlType list"
  | KindOther

record IdlEnumVariant =
  var_name :: string
  var_fields :: "VariantFields option"

datatype TypeDef =
    StructDef "IdlField list"
  | EnumDef "IdlEnumVariant list"

record IdlTypeEntry =
  def_name :: string
  def_type :: TypeDef

datatype AccountType =
    AccStruct "IdlField list"
  | AccDefined string

record IdlAccount =
  acc_name :: string
  acc_type :: "AccountType option"

record Idl =
  idl_accounts :: "IdlAccount list option"
  idl_types :: "IdlTypeEntry list option"

section \<open>Decoded values and errors\<close>

text \<open>
  A decoded value: \<open>null\<close>, a number, a boolean, a string, an array, or an object.
  An object is the list of its own properties, in the order in which the engine lists
  them, together with its prototype. The objects of the decoder are created by \<open>{}\<close> and
  by object literals, so their prototype is \<open>Object.prototype\<close> until an assignment to
  the key \<open>__proto__\<close> replaces it by \<open>null\<close>, a decoded object or a decoded array.
\<close>

datatype Value =
    VNull
  | VNum int
  | VBool bool
  | VStr string
  | VList "Value list"
  | VObj JsObject
and JsObject = Obj "(string \<times> Value) list" Proto
and Proto =
    ObjectPrototype
  | NullPrototype
  | ProtoObject JsObject
  | ProtoArray "Value list"

fun ownProps :: "JsObject \<Rightarrow> (string \<times> Value) list" where
  "ownProps (Obj props proto) = props"

fun protoOf :: "JsObject \<Rightarrow> Proto" where
  "protoOf (Obj props proto) = proto"

text \<open>The number a string of decimal digits denotes.\<close>

definition digitValue :: "char \<Rightarrow> nat" where
  "digitValue c = of_char c - 48"

definition decimalNat :: "string \<Rightarrow> nat" where
  "decimalNat s = foldl (\<lambda>acc c. 10 * acc + digitValue c) 0 s"

text \<open>
  An array index is a key that is the canonical decimal numeral (no leading zero) of a
  number below \<open>2^32 - 1\<close>. The engine lists the own keys of an object with the array
  indices first, in ascending order, and the other keys after them in the order of their
  creation. \<open>keyBefore k k'\<close>: the new key \<open>k\<close> is listed before the existing key
  \<open>k'\<close>.
\<close>

definition arrayIndex :: "string \<Rightarrow> nat option" where
  "arrayIndex s =
     (if s \<noteq> [] \<and> list_all (\<lambda>c. c \<in> set ''0123456789'') s \<and> (hd s \<noteq> CHR ''0'' \<or> s = ''0'')
         \<and> decimalNat s < 4294967295
      then Some (decimalNat s) else None)"

definition keyBefore :: "string \<Rightarrow> string \<Rightarrow> bool" where
  "keyBefore k k' =
     (case arrayIndex k of
        None \<Rightarrow> False
      | Some n \<Rightarrow> (case arrayIndex k' of None \<Rightarrow> True | Some n' \<Rightarrow> n < n'))"

text \<open>Creating the own property \<open>k\<close>, and giving a new value to the existing one.\<close>

fun insertKey :: "(string \<times> Value) list \<Rightarrow> string \<Rightarrow> Value \<Rightarrow> (string \<times> Value) list" where
  "insertKey [] k v = [(k, v)]"
| "insertKey ((k', v') # ps) k v =
     (if keyBefore k k' then (k, v) # (k', v') # ps else (k', v') # insertKey ps k v)"

fun replaceKey :: "(string \<times> Value) list \<Rightarrow> string \<Rightarrow> Value \<Rightarrow> (string \<times> Value) list" where
  "replaceKey [] k v = []"
| "replaceKey ((k', v') # ps) k v =
     (if k' = k then (k, v) # ps else (k', v') # replaceKey ps k v)"

definition ownSet :: "(string \<times> Value) list \<Rightarrow> string \<Rightarrow> Value \<Rightarrow> (string \<times> Value) list" where
  "ownSet props k v = (if k \<in> fst ` set props then replaceKey props k v else insertKey props k v)"

text \<open>
  What an assignment to the key \<open>__proto__\<close> finds on the prototype chain of an object
  that has no own property of that name: the accessor of \<open>Object.prototype\<close> (also
  behind every array), a data property of a decoded object on the chain, or nothing when
  the chain ends in \<open>null\<close> first.
\<close>

datatype ProtoSlot = Accessor | DataProperty | Absent

fun inheritedProto :: "Proto \<Rightarrow> ProtoSlot" where
  "inheritedProto ObjectPrototype = Accessor"
| "inheritedProto NullPrototype = Absent"
| "inheritedProto (ProtoObject (Obj props proto)) =
     (if ''__proto__'' \<in> fst ` set props then DataProperty else inheritedProto proto)"
| "inheritedProto (ProtoArray xs) = Accessor"

text \<open>The setter of the accessor: an object, an array or \<open>null\<close> becomes the prototype;
  any other value is ignored.\<close>

fun setPrototype :: "JsObject \<Rightarrow> Value \<Rightarrow> JsObject" where
  "setPrototype (Obj props proto) VNull = Obj props NullPrototype"
| "setPrototype (Obj props proto) (VObj p) = Obj props (ProtoObject p)"
| "setPrototype (Obj props proto) (VList xs) = Obj props (ProtoArray xs)"
| "setPrototype obj v = obj"

text \<open>
  The assignment \<open>obj[k] = v\<close>. Every data property on the chain is writable, so the
  assignment creates or updates the own property \<open>k\<close>, except when \<open>k\<close> is
  \<open>__proto__\<close> and reaches the accessor: then no own property is created and the setter
  runs.
\<close>

fun obj_set :: "JsObject \<Rightarrow> string \<Rightarrow> Value \<Rightarrow> JsObject" where
  "obj_set (Obj props proto) k v =
     (if k = ''__proto__'' \<and> k \<notin> fst ` set props \<and> inheritedProto proto = Accessor
      then setPrototype (Obj props proto) v
      else Obj (ownSet props k v) proto)"

text \<open>
  What the source throws: \<open>RangeError\<close> from a \<open>DataView\<close> read or a typed-array
  \<open>set\<close> outside the bounds, \<open>TypeError\<close> from the \<open>in\<close> operator on \<open>undefined\<close>,
  \<open>InvalidPublicKey\<close> from the key library's constructor, and \<open>StackExhausted\<close>
  when the nesting of \<open>decodeType\<close> calls exceeds the given depth.
\<close>

datatype error = RangeError | TypeError | InvalidPublicKey | StackExhausted

type_synonym 'a result = "error + 'a"

text \<open>
  The platform and library functions the decoder calls: the SHA-256 digest, the
  (non-fatal) UTF-8 \<open>TextDecoder\<close>, and the key library's constructor followed by
  \<open>toBase58\<close> (\<open>None\<close> when the constructor throws).
\<close>

record platform =
  sha256 :: "byte list \<Rightarrow> byte list"
  textDecode :: "byte list \<Rightarrow> string"
  publicKeyToBase58 :: "byte list \<Rightarrow> string option"

section \<open>Rendering\<close>

definition digitChar :: "nat \<Rightarrow> char" where
  "digitChar d = (''0123456789abcdef'') ! d"

text \<open>
  The digits of a natural number in a radix from 2 to 16, most significant first, as
  \<open>Number.prototype.toString(radix)\<close> and \<open>BigInt.prototype.toString()\<close> give them.
  The source uses the radix 16 (in \<open>toHex\<close>) and the radix 10 (\<open>toString\<close> of a
  \<open>bigint\<close>).
\<close>

function natToString :: "nat \<Rightarrow> nat \<Rightarrow> string" where
  "natToString radix n =
     (if radix < 2 \<or> n < radix then [digitChar n]
      else natToString radix (n div radix) @ [digitChar (n mod radix)])"
  by pat_completeness auto
termination
  by (relation "measure (\<lambda>(radix, n). n)") auto

declare natToString.simps [simp del]

definition bigintToString :: "int \<Rightarrow> string" where
  "bigintToString i = (if i < 0 then CHR ''-'' # natToString 10 (nat (- i)) else natToString 10 (nat i))"

definition padStart :: "nat \<Rightarrow> char \<Rightarrow> string \<Rightarrow> string" where
  "padStart n c s = replicate (n - length s) c @ s"

definition toHex :: "byte list \<Rightarrow> string" where
  "toHex bytes = concat (map (\<lambda>b. padStart 2 (CHR ''0'') (natToString 16 (unat b))) bytes)"

text \<open>\<open>TextEncoder.encode\<close> on the byte representation of strings.\<close>

definition textEncode :: "string \<Rightarrow> byte list" where
  "textEncode s = map (\<lambda>c. of_nat (of_char c)) s"

section \<open>Discriminator\<close>

text \<open>\<open>TypedArray.prototype.set(source, offset)\<close>.\<close>

definition typedArraySet :: "byte list \<Rightarrow> byte list \<Rightarrow> nat \<Rightarrow> byte list result" where
  "typedArraySet target src off =
     (if off + length src \<le> length target
      then Inr (take off target @ src @ drop (off + length src) target)
      else Inl RangeError)"

definition anchorDiscriminatorForAccount :: "platform \<Rightarrow> string \<Rightarrow> byte list result" where
  "anchorDiscriminatorForAccount P name =
     (let prefix = textEncode ''account:'';
          n = textEncode name;
          data0 = replicate (length prefix + length n) (0 :: byte)
      in case typedArraySet data0 prefix 0 of
           Inl e \<Rightarrow> Inl e
         | Inr data1 \<Rightarrow>
             (case typedArraySet data1 n (length prefix) of
                Inl e \<Rightarrow> Inl e
              | Inr data \<Rightarrow> Inr (take 8 (sha256 P data))))"

text \<open>\<open>Array.from(d).every((v, i) => v === other[i])\<close>: an index past the end of
  \<open>other\<close> reads \<open>undefined\<close>, which equals no byte.\<close>

fun everyEqual :: "byte list \<Rightarrow> byte list \<Rightarrow> bool" where
  "everyEqual [] other = True"
| "everyEqual (v # d) [] = False"
| "everyEqual (v # d) (b # other) = (v = b \<and> everyEqual d other)"

section \<open>Cursor reads\<close>

text \<open>
  The \<open>DataView\<close> and the \<open>Uint8Array\<close> handed to the decoder cover the same bytes
  (the view is built over the array's own buffer, offset and length), so one byte list
  stands for both. A \<open>DataView\<close> getter of width \<open>w\<close> throws \<open>RangeError\<close> unless
  \<open>offset + w\<close> is within the view.
\<close>

fun leValue :: "byte list \<Rightarrow> nat" where
  "leValue [] = 0"
| "leValue (b # bs) = unat b + 256 * leValue bs"

definition toSigned :: "nat \<Rightarrow> nat \<Rightarrow> int" where
  "toSigned w v = (if 2 ^ (8 * w - 1) \<le> v then int v - 2 ^ (8 * w) else int v)"

definition getUint :: "nat \<Rightarrow> byte list \<Rightarrow> nat \<Rightarrow> int result" where
  "getUint w view off =
     (if off + w \<le> length view then Inr (int (leValue (take w (drop off view)))) else Inl RangeError)"

definition getInt :: "nat \<Rightarrow> byte list \<Rightarrow> nat \<Rightarrow> int result" where
  "getInt w view off =
     (if off + w \<le> length view then Inr (toSigned w (leValue (take w (drop off view)))) else Inl RangeError)"

definition advance :: "nat \<Rightarrow> nat \<Rightarrow> int result \<Rightarrow> (int \<times> nat) result" where
  "advance off w r = (case r of Inl e \<Rightarrow> Inl e | Inr v \<Rightarrow> Inr (v, off + w))"

definition readU8 :: "byte list \<Rightarrow> nat \<Rightarrow> (int \<times> nat) result" where
  "readU8 view off = advance off 1 (getUint 1 view off)"

definition readI8 :: "byte list \<Rightarrow> nat \<Rightarrow> (int \<times> nat) result" where
  "readI8 view off = advance off 1 (getInt 1 view off)"

definition readU16 :: "byte list \<Rightarrow> nat \<Rightarrow> (int \<times> nat) result" where
  "readU16 view off = advance off 2 (getUint 2 view off)"

definition readI16 :: "byte list \<Rightarrow> nat \<Rightarrow> (int \<times> nat) result" where
  "readI16 view off = advance off 2 (getInt 2 view off)"

definition readU32 :: "byte list \<Rightarrow> nat \<Rightarrow> (int \<times> nat) result" where
  "readU32 view off = advance off 4 (getUint 4 view off)"

definition readI32 :: "byte list \<Rightarrow> nat \<Rightarrow> (int \<times> nat) result" where
  "readI32 view off = advance off 4 (getInt 4 view off)"

definition readU64 :: "byte list \<Rightarrow> nat \<Rightarrow> (int \<times> nat) result" where
  "readU64 view off = advance off 8 (getUint 8 view off)"

definition readI64 :: "byte list \<Rightarrow> nat \<Rightarrow> (int \<times> nat) result" where
  "readI64 view off = advance off 8 (getInt 8 view off)"

definition readBool :: "byte list \<Rightarrow> nat \<Rightarrow> (bool \<times> nat) result" where
  "readBool view off = (case readU8 view off of Inl e \<Rightarrow> Inl e | Inr (v, n) \<Rightarrow> Inr (v \<noteq> 0, n))"

text \<open>\<open>Uint8Array.prototype.slice(start, end)\<close> clamps both indices to the length.\<close>

definition sliceBytes :: "byte list \<Rightarrow> nat \<Rightarrow> nat \<Rightarrow> byte list" where
  "sliceBytes bytes start end = take (end - start) (drop start bytes)"

definition readString :: "platform \<Rightarrow> byte list \<Rightarrow> nat \<Rightarrow> (string \<times> nat) result" where
  "readString P bytes off =
     (case readU32 bytes off of
        Inl e \<Rightarrow> Inl e
      | Inr (len, no) \<Rightarrow> Inr (textDecode P (sliceBytes bytes no (no + nat len)), no + nat len))"

section \<open>Type decoder\<close>

text \<open>
  \<open>decodeType\<close> and the readers it calls are mutually recursive in the source. Each
  reader below takes the decoder it calls back as its argument \<open>dec\<close> (offset and type
  descriptor to value and new offset); \<open>decodeType\<close> ties the knot, with a bound on
  the nesting depth of its calls.
\<close>

type_synonym decoder = "nat \<Rightarrow> IdlType \<Rightarrow> (Value \<times> nat) result"

text \<open>The loop of \<open>readVec\<close> and \<open>readArray\<close>: \<open>count\<close> more elements, pushed onto \<open>out\<close>.\<close>

fun readLoop :: "decoder \<Rightarrow> IdlType \<Rightarrow> nat \<Rightarrow> Value list \<Rightarrow> nat \<Rightarrow> (Value list \<times> nat) result" where
  "readLoop dec elem 0 out off = Inr (out, off)"
| "readLoop dec elem (Suc count) out off =
     (case dec off elem of
        Inl e \<Rightarrow> Inl e
      | Inr (v, n) \<Rightarrow> readLoop dec elem count (out @ [v]) n)"

definition readVec :: "decoder \<Rightarrow> byte list \<Rightarrow> nat \<Rightarrow> IdlType \<Rightarrow> (Value list \<times> nat) result" where
  "readVec dec view off elem =
     (case readU32 view off of
        Inl e \<Rightarrow> Inl e
      | Inr (len, no) \<Rightarrow> readLoop dec elem (nat len) [] no)"

definition readArray :: "decoder \<Rightarrow> nat \<Rightarrow> IdlType \<Rightarrow> nat \<Rightarrow> (Value list \<times> nat) result" where
  "readArray dec off elem count = readLoop dec elem count [] off"

text \<open>The loop over named fields \<open>{name, type}\<close>, assigning into \<open>obj\<close>.\<close>

fun fieldLoop :: "decoder \<Rightarrow> IdlField list \<Rightarrow> JsObject \<Rightarrow> nat \<Rightarrow> (JsObject \<times> nat) result" where
  "fieldLoop dec [] obj off = Inr (obj, off)"
| "fieldLoop dec (f # fs) obj off =
     (case dec off (snd f) of
        Inl e \<Rightarrow> Inl e
      | Inr (v, n) \<Rightarrow> fieldLoop dec fs (obj_set obj (fst f) v) n)"

text \<open>The loop over positional types, pushing onto \<open>arr\<close>.\<close>

fun tupleLoop :: "decoder \<Rightarrow> IdlType list \<Rightarrow> Value list \<Rightarrow> nat \<Rightarrow> (Value list \<times> nat) result" where
  "tupleLoop dec [] arr off = Inr (arr, off)"
| "tupleLoop dec (t # ts) arr off =
     (case dec off t of
        Inl e \<Rightarrow> Inl e
      | Inr (v, n) \<Rightarrow> tupleLoop dec ts (arr @ [v]) n)"

text \<open>
  The two loops over a flat \<open>fields\<close> array, whose elements the source casts without a
  check. Read as a field, a type descriptor has no \<open>type\<close> property, and \<open>decodeType\<close>
  applies \<open>in\<close> to \<open>undefined\<close>: a \<open>TypeError\<close>. Read as a type, a field object has
  none of the keys \<open>decodeType\<close> looks for and falls through to \<open>[null, offset]\<close>.
\<close>

fun flatFieldLoop :: "decoder \<Rightarrow> VariantElem list \<Rightarrow> JsObject \<Rightarrow> nat \<Rightarrow> (JsObject \<times> nat) result" where
  "flatFieldLoop dec [] obj off = Inr (obj, off)"
| "flatFieldLoop dec (ElemField name t # fs) obj off =
     (case dec off t of
        Inl e \<Rightarrow> Inl e
      | Inr (v, n) \<Rightarrow> flatFieldLoop dec fs (obj_set obj name v) n)"
| "flatFieldLoop dec (ElemType t # fs) obj off = Inl TypeError"

fun flatTupleLoop :: "decoder \<Rightarrow> VariantElem list \<Rightarrow> Value list \<Rightarrow> nat \<Rightarrow> (Value list \<times> nat) result" where
  "flatTupleLoop dec [] arr off = Inr (arr, off)"
| "flatTupleLoop dec (ElemType t # ts) arr off =
     (case dec off t of
        Inl e \<Rightarrow> Inl e
      | Inr (v, n) \<Rightarrow> flatTupleLoop dec ts (arr @ [v]) n)"
| "flatTupleLoop dec (ElemField name t # ts) arr off = flatTupleLoop dec ts (arr @ [VNull]) off"

definition resolveDefined :: "Idl \<Rightarrow> string \<Rightarrow> TypeDef option" where
  "resolveDefined idl name =
     (case idl_types idl of
        None \<Rightarrow> None
      | Some ts \<Rightarrow> map_option def_type (find (\<lambda>t. def_name t = name) ts))"

text \<open>The test of \<open>decodeEnum\<close> on the first element of a flat array:
  \<open>typeof fields[0] === "object"\<close> with none of the four keys.\<close>

fun isFieldObject :: "VariantElem \<Rightarrow> bool" where
  "isFieldObject (ElemField name t) = True"
| "isFieldObject (ElemType t) = False"

definition enumValue :: "int \<Rightarrow> string \<Rightarrow> Value \<Rightarrow> Value" where
  "enumValue tag name v =
     VObj (Obj [(''tag'', VNum tag), (''name'', VStr name), (''value'', v)] ObjectPrototype)"

definition enumNoValue :: "int \<Rightarrow> string \<Rightarrow> Value" where
  "enumNoValue tag name = VObj (Obj [(''tag'', VNum tag), (''name'', VStr name)] ObjectPrototype)"

definition wrapObj :: "int \<Rightarrow> string \<Rightarrow> (JsObject \<times> nat) result \<Rightarrow> (Value \<times> nat) result" where
  "wrapObj tag name r = (case r of Inl e \<Rightarrow> Inl e | Inr (obj, off) \<Rightarrow> Inr (enumValue tag name (VObj obj), off))"

definition wrapArr :: "int \<Rightarrow> string \<Rightarrow> (Value list \<times> nat) result \<Rightarrow> (Value \<times> nat) result" where
  "wrapArr tag name r = (case r of Inl e \<Rightarrow> Inl e | Inr (arr, off) \<Rightarrow> Inr (enumValue tag name (VList arr), off))"

definition decodeEnum :: "decoder \<Rightarrow> byte list \<Rightarrow> nat \<Rightarrow> IdlEnumVariant list \<Rightarrow> (Value \<times> nat) result" where
  "decodeEnum dec view off variants =
     (case readU8 view off of
        Inl e \<Rightarrow> Inl e
      | Inr (tag, no) \<Rightarrow>
          if length variants \<le> nat tag then Inr (enumNoValue tag ''Unknown'', no)
          else
            let variant = variants ! nat tag in
            (case var_fields variant of
               None \<Rightarrow> Inr (enumNoValue tag (var_name variant), no)
             | Some (FlatArray flds) \<Rightarrow>
                 if flds \<noteq> [] \<and> isFieldObject (hd flds)
                 then wrapObj tag (var_name variant) (flatFieldLoop dec flds (Obj [] ObjectPrototype) no)
                 else wrapArr tag (var_name variant) (flatTupleLoop dec flds [] no)
             | Some (KindStruct fs) \<Rightarrow>
                 wrapObj tag (var_name variant) (fieldLoop dec fs (Obj [] ObjectPrototype) no)
             | Some (KindTuple ts) \<Rightarrow> wrapArr tag (var_name variant) (tupleLoop dec ts [] no)
             | Some KindOther \<Rightarrow>
                 Inr (enumValue tag (var_name variant) (VObj (Obj [] ObjectPrototype)), no)))"

definition decodeStruct :: "decoder \<Rightarrow> nat \<Rightarrow> IdlField list \<Rightarrow> (JsObject \<times> nat) result" where
  "decodeStruct dec off flds = fieldLoop dec flds (Obj [] ObjectPrototype) off"

text \<open>\<open>Uint8Array.from(arr)\<close> on the numbers \<open>readVec\<close> returned for \<open>u8\<close> elements.\<close>

fun toUint8 :: "Value \<Rightarrow> byte" where
  "toUint8 (VNum n) = word_of_int n"
| "toUint8 v = 0"

definition numResult :: "(int \<times> nat) result \<Rightarrow> (Value \<times> nat) result" where
  "numResult r = (case r of Inl e \<Rightarrow> Inl e | Inr (v, n) \<Rightarrow> Inr (VNum v, n))"

definition bigResult :: "(int \<times> nat) result \<Rightarrow> (Value \<times> nat) result" where
  "bigResult r = (case r of Inl e \<Rightarrow> Inl e | Inr (v, n) \<Rightarrow> Inr (VStr (bigintToString v), n))"

text \<open>
  \<open>decodeType depth P bytes offset type idl\<close>. The first argument bounds the nesting of
  calls: the source recurses without a bound of its own, and the engine throws when its
  stack is exhausted.
\<close>

primrec decodeType :: "nat \<Rightarrow> platform \<Rightarrow> byte list \<Rightarrow> nat \<Rightarrow> IdlType \<Rightarrow> Idl \<Rightarrow> (Value \<times> nat) result" where
  "decodeType 0 P bytes off ty idl = Inl StackExhausted"
| "decodeType (Suc depth) P bytes off ty idl =
     (let dec = (\<lambda>off' ty'. decodeType depth P bytes off' ty' idl) in
      case ty of
        TName s \<Rightarrow>
          if s = ''u8'' then numResult (readU8 bytes off)
          else if s = ''i8'' then numResult (readI8 bytes off)
          else if s = ''u16'' then numResult (readU16 bytes off)
          else if s = ''i16'' then numResult (readI16 bytes off)
          else if s = ''u32'' then numResult (readU32 bytes off)
          else if s = ''i32'' then numResult (readI32 bytes off)
          else if s = ''u64'' then bigResult (readU64 bytes off)
          else if s = ''i64'' then bigResult (readI64 bytes off)
          else if s = ''bool'' then
            (case readBool bytes off of Inl e \<Rightarrow> Inl e | Inr (b, n) \<Rightarrow> Inr (VBool b, n))
          else if s = ''string'' then
            (case readString P bytes off of Inl e \<Rightarrow> Inl e | Inr (str, n) \<Rightarrow> Inr (VStr str, n))
          else if s = ''publicKey'' then
            (case publicKeyToBase58 P (sliceBytes bytes off (off + 32)) of
               None \<Rightarrow> Inl InvalidPublicKey
             | Some b58 \<Rightarrow> Inr (VStr b58, off + 32))
          else if s = ''bytes'' then
            (case readVec dec bytes off (TName ''u8'') of
               Inl e \<Rightarrow> Inl e
             | Inr (arr, n) \<Rightarrow> Inr (VStr (''0x'' @ toHex (map toUint8 arr)), n))
          else Inr (VNull, off)
      | TVec elem \<Rightarrow>
          (case readVec dec bytes off elem of Inl e \<Rightarrow> Inl e | Inr (out, n) \<Rightarrow> Inr (VList out, n))
      | TOption inner \<Rightarrow>
          (case readU8 bytes off of
             Inl e \<Rightarrow> Inl e
           | Inr (has, no) \<Rightarrow> if has = 0 then Inr (VNull, no) else dec no inner)
      | TArray elem count \<Rightarrow>
          (case readArray dec off elem count of Inl e \<Rightarrow> Inl e | Inr (out, n) \<Rightarrow> Inr (VList out, n))
      | TDefined name \<Rightarrow>
          (case resolveDefined idl name of
             None \<Rightarrow> Inr (VNull, off)
           | Some (StructDef flds) \<Rightarrow>
               (case decodeStruct dec off flds of Inl e \<Rightarrow> Inl e | Inr (obj, n) \<Rightarrow> Inr (VObj obj, n))
           | Some (EnumDef variants) \<Rightarrow> decodeEnum dec bytes off variants))"

declare decodeType.simps [simp del]

section \<open>Account resolver\<close>

record DecodedAccount =
  accountName :: string
  data :: JsObject

definition findAccount :: "Idl \<Rightarrow> string \<Rightarrow> IdlAccount option" where
  "findAccount idl name =
     (case idl_accounts idl of None \<Rightarrow> None | Some accs \<Rightarrow> find (\<lambda>a. acc_name a = name) accs)"

definition getAccountStructFields :: "Idl \<Rightarrow> string \<Rightarrow> IdlField list option" where
  "getAccountStructFields idl name =
     (let acc = findAccount idl name;
          viaTypes = (case resolveDefined idl name of Some (StructDef flds) \<Rightarrow> Some flds | _ \<Rightarrow> None)
      in case acc of
           Some a \<Rightarrow>
             (case acc_type a of
                Some (AccStruct flds) \<Rightarrow> Some flds
              | Some (AccDefined d) \<Rightarrow>
                  (case resolveDefined idl d of
                     Some (StructDef flds) \<Rightarrow> Some flds
                   | _ \<Rightarrow> viaTypes)
              | None \<Rightarrow> viaTypes)
         | None \<Rightarrow> viaTypes)"

text \<open>Decoding the account body: \<open>decodeStruct(view, body, 0, fields, idl)\<close> on a view
  over \<open>body\<close>, the object returned under the account's name.\<close>

definition decodeBody :: "nat \<Rightarrow> platform \<Rightarrow> byte list \<Rightarrow> Idl \<Rightarrow> string \<Rightarrow> IdlField list \<Rightarrow> DecodedAccount option result" where
  "decodeBody depth P body idl name flds =
     (case decodeStruct (\<lambda>off ty. decodeType depth P body off ty idl) 0 flds of
        Inl e \<Rightarrow> Inl e
      | Inr (obj, n) \<Rightarrow> Inr (Some \<lparr>accountName = name, data = obj\<rparr>))"

text \<open>The loop of \<open>parseAccountWithIdl\<close> over the accounts still to try.\<close>

fun accountLoop :: "nat \<Rightarrow> platform \<Rightarrow> byte list \<Rightarrow> Idl \<Rightarrow> byte list \<Rightarrow> IdlAccount list \<Rightarrow> DecodedAccount option result" where
  "accountLoop depth P bytes idl disc [] = Inr None"
| "accountLoop depth P bytes idl disc (acc # rest) =
     (case anchorDiscriminatorForAccount P (acc_name acc) of
        Inl e \<Rightarrow> Inl e
      | Inr d \<Rightarrow>
          if everyEqual d disc then
            (let body = drop 8 bytes in
             case getAccountStructFields idl (acc_name acc) of
               None \<Rightarrow> accountLoop depth P bytes idl disc rest
             | Some flds \<Rightarrow> decodeBody depth P body idl (acc_name acc) flds)
          else accountLoop depth P bytes idl disc rest)"

definition parseAccountWithIdl :: "nat \<Rightarrow> platform \<Rightarrow> byte list \<Rightarrow> Idl \<Rightarrow> DecodedAccount option result" where
  "parseAccountWithIdl depth P bytes idl =
     (case idl_accounts idl of
        None \<Rightarrow> Inr None
      | Some accs \<Rightarrow>
          if accs = [] then Inr None
          else accountLoop depth P bytes idl (sliceBytes bytes 0 8) accs)"

text \<open>\<open>selected\<close> is \<open>None\<close> for \<open>undefined\<close>; the empty string is falsy as well.\<close>

definition parseAccountAutoOrSelected :: "nat \<Rightarrow> platform \<Rightarrow> byte list \<Rightarrow> Idl \<Rightarrow> string option \<Rightarrow> DecodedAccount option result" where
  "parseAccountAutoOrSelected depth P bytes idl selected =
     (case selected of
        None \<Rightarrow> parseAccountWithIdl depth P bytes idl
      | Some sel \<Rightarrow>
          if sel = [] then parseAccountWithIdl depth P bytes idl
          else
            (case findAccount idl sel of
               None \<Rightarrow> Inr None
             | Some acc \<Rightarrow>
                 (let hasDisc = (8 \<le> length bytes) in
                  case (if hasDisc
                        then (case anchorDiscriminatorForAccount P (acc_name acc) of
                                Inl e \<Rightarrow> Inl e
                              | Inr d \<Rightarrow> Inr (if everyEqual d bytes then 8 else 0))
                        else Inr (0 :: nat)) of
                    Inl e \<Rightarrow> Inl e
                  | Inr useOffset \<Rightarrow>
                      (let body = drop useOffset bytes in
                       case getAccountStructFields idl (acc_name acc) of
                         None \<Rightarrow> Inr None
                       | Some flds \<Rightarrow> decodeBody depth P body idl (acc_name acc) flds))))"

section \<open>Specification-level definitions\<close>

text \<open>
  The discriminator in the specification's words: the first 8 bytes of the digest of the
  UTF-8 bytes of \<open>"account:"\<close> followed by the UTF-8 bytes of the type name.
\<close>

definition discriminatorOf :: "platform \<Rightarrow> string \<Rightarrow> byte list" where
  "discriminatorOf P name = take 8 (sha256 P (textEncode ''account:'' @ textEncode name))"

text \<open>A digest function in the sense of SHA-256 returns 32 bytes on every input.\<close>

definition digest32 :: "platform \<Rightarrow> bool" where
  "digest32 P = (\<forall>input. length (sha256 P input) = 32)"

text \<open>
  Decoding a sequence of types one after the other, each at the offset the previous one
  returned, and collecting the values in order.
\<close>

fun decodeSeq :: "decoder \<Rightarrow> IdlType list \<Rightarrow> nat \<Rightarrow> (Value list \<times> nat) result" where
  "decodeSeq dec [] off = Inr ([], off)"
| "decodeSeq dec (t # ts) off =
     (case dec off t of
        Inl e \<Rightarrow> Inl e
      | Inr (v, n) \<Rightarrow>
          (case decodeSeq dec ts n of
             Inl e \<Rightarrow> Inl e
           | Inr (vs, m) \<Rightarrow> Inr (v # vs, m)))"

text \<open>The object \<open>obj\<close> after the assignments \<open>obj[k] = v\<close> of the values \<open>vs\<close> to the
  names \<open>ks\<close>, in order: what a loop over named fields leaves.\<close>

fun namedFields :: "JsObject \<Rightarrow> string list \<Rightarrow> Value list \<Rightarrow> JsObject" where
  "namedFields obj (k # ks) (v # vs) = namedFields (obj_set obj k v) ks vs"
| "namedFields obj ks vs = obj"

text \<open>
  The named-field value of the specification, stated without the assignment: the object
  has no key twice and no key that is not a field name; under every field name other than
  \<open>__proto__\<close> it holds the value decoded for that name (the last one, if the name
  occurs twice); and its prototype is still \<open>Object.prototype\<close> when no field is named
  \<open>__proto__\<close>.
\<close>

definition holdsNamedFields :: "JsObject \<Rightarrow> string list \<Rightarrow> Value list \<Rightarrow> bool" where
  "holdsNamedFields obj ks vs =
     (distinct (map fst (ownProps obj)) \<and>
      fst ` set (ownProps obj) \<subseteq> set ks \<and>
      (\<forall>k \<in> set ks. k \<noteq> ''__proto__'' \<longrightarrow> map_of (ownProps obj) k = map_of (rev (zip ks vs)) k) \<and>
      (''__proto__'' \<notin> set ks \<longrightarrow> protoOf obj = ObjectPrototype))"

text \<open>Field names that are pairwise different, with no \<open>__proto__\<close> and no array index
  among them: for these the named-field value lists the fields in declaration order.\<close>

definition plainNames :: "string list \<Rightarrow> bool" where
  "plainNames ks = (distinct ks \<and> (\<forall>k \<in> set ks. k \<noteq> ''__proto__'' \<and> arrayIndex k = None))"

text \<open>
  The first 8 bytes of the buffer equal, byte for byte, the discriminator of the account
  type \<open>name\<close>. A buffer shorter than 8 bytes matches nothing.
\<close>

definition tagMatches :: "platform \<Rightarrow> byte list \<Rightarrow> string \<Rightarrow> bool" where
  "tagMatches P bytes name = (8 \<le> length bytes \<and> take 8 bytes = discriminatorOf P name)"

text \<open>The declared account types in schema order; none when the key is absent.\<close>

definition accountsOf :: "Idl \<Rightarrow> IdlAccount list" where
  "accountsOf idl = (case idl_accounts idl of None \<Rightarrow> [] | Some accs \<Rightarrow> accs)"

text \<open>An account type whose discriminator matches and whose field list can be located.\<close>

definition candidate :: "platform \<Rightarrow> byte list \<Rightarrow> Idl \<Rightarrow> IdlAccount \<Rightarrow> bool" where
  "candidate P bytes idl a =
     (tagMatches P bytes (acc_name a) \<and> getAccountStructFields idl (acc_name a) \<noteq> None)"

text \<open>
  The integer a decimal numeral denotes, with an optional leading minus sign: the reading
  against which the exactness of the decoder's decimal strings is stated.
\<close>

definition decimalValue :: "string \<Rightarrow> int" where
  "decimalValue s = (case s of [] \<Rightarrow> 0 | c # t \<Rightarrow> if c = CHR ''-'' then - int (decimalNat t) else int (decimalNat s))"


text \<open>
  A flat \<open>fields\<close> array read as a list of types, or as a list of named fields; \<open>None\<close>
  when an element is of the other kind.
\<close>

fun asTypes :: "VariantElem list \<Rightarrow> IdlType list option" where
  "asTypes [] = Some []"
| "asTypes (ElemType t # es) = map_option ((#) t) (asTypes es)"
| "asTypes (ElemField name t # es) = None"

fun asFields :: "VariantElem list \<Rightarrow> IdlField list option" where
  "asFields [] = Some []"
| "asFields (ElemField name t # es) = map_option ((#) (name, t)) (asFields es)"
| "asFields (ElemType t # es) = None"


text \<open>The name of a field object in a flat array.\<close>

fun elemName :: "VariantElem \<Rightarrow> string option" where
  "elemName (ElemField name t) = Some name"
| "elemName (ElemType t) = None"

text \<open>A decoder whose returned cursor is never before the cursor it was given.\<close>

definition advancing :: "decoder \<Rightarrow> bool" where
  "advancing dec = (\<forall>off ty v n. dec off ty = Inr (v, n) \<longrightarrow> off \<le> n)"

section \<open>Sample inputs\<close>

text \<open>
  A stand-in platform for the concrete instances below: a 32-byte digest (the reversed
  input, zero-padded; not SHA-256), a decoder of ASCII text, and a key library that
  rejects every input.
\<close>

definition samplePlatform :: platform where
  "samplePlatform =
     \<lparr>sha256 = (\<lambda>input. take 32 (rev input @ replicate 32 0)),
      textDecode = map (\<lambda>b. char_of (unat b)),
      publicKeyToBase58 = (\<lambda>key. None)\<rparr>"

text \<open>
  A schema with two account types, one with inline fields and one declared by reference.
  Under the stand-in digest their discriminators are the bytes of \<open>tluaV:tn\<close> and of
  \<open>gifnoC:t\<close>.
\<close>

definition sampleIdl :: Idl where
  "sampleIdl =
     \<lparr>idl_accounts = Some
        [\<lparr>acc_name = ''Vault'', acc_type = Some (AccStruct [(''open'', TName ''bool'')])\<rparr>,
         \<lparr>acc_name = ''Config'', acc_type = Some (AccDefined ''ConfigData'')\<rparr>],
      idl_types = Some
        [\<lparr>def_name = ''ConfigData'', def_type = StructDef [(''level'', TName ''u8'')]\<rparr>]\<rparr>"

text \<open>
  A schema whose two account types have the same discriminator under the stand-in digest
  (the bytes of \<open>etatStlu\<close>); the first has no field list anywhere.
\<close>

definition collidingIdl :: Idl where
  "collidingIdl =
     \<lparr>idl_accounts = Some
        [\<lparr>acc_name = ''AVaultState'', acc_type = None\<rparr>,
         \<lparr>acc_name = ''BVaultState'', acc_type = Some (AccStruct [(''level'', TName ''u8'')])\<rparr>],
      idl_types = None\<rparr>"

text \<open>The schema of scenario A: the account type \<open>Counter\<close> = struct \<open>{ count: u64 }\<close>.\<close>

definition counterIdl :: Idl where
  "counterIdl =
     \<lparr>idl_accounts = Some
        [\<lparr>acc_name = ''Counter'', acc_type = Some (AccStruct [(''count'', TName ''u64'')])\<rparr>],
      idl_types = None\<rparr>"


text \<open>Variants whose \<open>fields\<close> are flat arrays: of types, of named fields, and empty.\<close>

definition shapesEnum :: "IdlEnumVariant list" where
  "shapesEnum =
     [\<lparr>var_name = ''Pair'', var_fields = Some (FlatArray [ElemType (TName ''u8''), ElemType (TName ''u8'')])\<rparr>,
      \<lparr>var_name = ''Point'', var_fields = Some (FlatArray [ElemField ''x'' (TName ''u8''), ElemField ''y'' (TName ''u8'')])\<rparr>,
      \<lparr>var_name = ''Empty'', var_fields = Some (FlatArray [])\<rparr>]"

text \<open>A schema with no auxiliary types, and one that declares the struct \<open>Missing\<close> =
  \<open>{ x: u8 }\<close>.\<close>

definition noTypesIdl :: Idl where
  "noTypesIdl = \<lparr>idl_accounts = None, idl_types = None\<rparr>"

definition missingIdl :: Idl where
  "missingIdl =
     \<lparr>idl_accounts = None,
      idl_types = Some [\<lparr>def_name = ''Missing'', def_type = StructDef [(''x'', TName ''u8'')]\<rparr>]\<rparr>"

section \<open>Objects and assignment\<close>

lemma replaceKey_keys: "map fst (replaceKey ps k v) = map fst ps"
  by (induction ps) auto

lemma replaceKey_keyset: "fst ` set (replaceKey ps k v) = fst ` set ps"
  using replaceKey_keys [of ps k v] by (metis set_map)

lemma insertKey_keys: "fst ` set (insertKey ps k v) = insert k (fst ` set ps)"
proof (induction ps)
  case Nil
  show ?case by simp
next
  case (Cons p ps)
  show ?case
    by (cases p; cases "keyBefore k (fst p)") (use Cons in auto)
qed

lemma ownSet_keys: "fst ` set (ownSet ps k v) = insert k (fst ` set ps)"
  by (auto simp: ownSet_def replaceKey_keyset insertKey_keys)

lemma insertKey_distinct:
  "k \<notin> fst ` set ps \<Longrightarrow> distinct (map fst ps) \<Longrightarrow> distinct (map fst (insertKey ps k v))"
  by (induction ps) (auto simp: insertKey_keys)

lemma ownSet_distinct: "distinct (map fst ps) \<Longrightarrow> distinct (map fst (ownSet ps k v))"
  by (simp add: ownSet_def replaceKey_keys insertKey_distinct)

lemma map_of_replaceKey_at:
  "map_of (replaceKey ps k v) x = (if x = k \<and> k \<in> fst ` set ps then Some v else map_of ps x)"
  by (induction ps) force+

lemma map_of_replaceKey:
  "k \<in> fst ` set ps \<Longrightarrow> map_of (replaceKey ps k v) = (map_of ps)(k \<mapsto> v)"
  by (simp add: fun_eq_iff map_of_replaceKey_at)

lemma map_of_insertKey:
  "k \<notin> fst ` set ps \<Longrightarrow> map_of (insertKey ps k v) = (map_of ps)(k \<mapsto> v)"
  by (induction ps) (auto simp: fun_eq_iff)

lemma map_of_ownSet: "map_of (ownSet ps k v) = (map_of ps)(k \<mapsto> v)"
  by (simp add: ownSet_def map_of_replaceKey map_of_insertKey)

lemma ownSet_Nil [simp]: "ownSet [] k v = [(k, v)]"
  by (simp add: ownSet_def)

lemma insertKey_append: "arrayIndex k = None \<Longrightarrow> insertKey ps k v = ps @ [(k, v)]"
  by (induction ps) (auto simp: keyBefore_def)

lemma ownSet_append:
  "arrayIndex k = None \<Longrightarrow> k \<notin> fst ` set ps \<Longrightarrow> ownSet ps k v = ps @ [(k, v)]"
  by (simp add: ownSet_def insertKey_append)

lemma setPrototype_ownProps: "ownProps (setPrototype obj v) = ownProps obj"
  by (cases "(obj, v)" rule: setPrototype.cases) auto

lemma obj_set_other:
  "k \<noteq> ''__proto__'' \<Longrightarrow> obj_set obj k v = Obj (ownSet (ownProps obj) k v) (protoOf obj)"
  by (cases obj) simp

lemma obj_set_keys_subset:
  "fst ` set (ownProps (obj_set obj k v)) \<subseteq> insert k (fst ` set (ownProps obj))"
  by (cases obj) (auto simp: ownSet_keys setPrototype_ownProps)

lemma obj_set_distinct:
  "distinct (map fst (ownProps obj)) \<Longrightarrow> distinct (map fst (ownProps (obj_set obj k v)))"
  by (cases obj) (auto simp: ownSet_distinct setPrototype_ownProps)

lemma obj_set_lookup:
  "k' \<noteq> ''__proto__'' \<Longrightarrow>
   map_of (ownProps (obj_set obj k v)) k' = ((map_of (ownProps obj))(k \<mapsto> v)) k'"
  by (cases obj) (auto simp: map_of_ownSet setPrototype_ownProps)

lemma namedFields_keys:
  "fst ` set (ownProps (namedFields obj ks vs)) \<subseteq> fst ` set (ownProps obj) \<union> set ks"
proof (induction obj ks vs rule: namedFields.induct)
  case (1 obj k ks v vs)
  then show ?case
    using obj_set_keys_subset [of obj k v] by auto
qed simp_all

lemma namedFields_distinct:
  "distinct (map fst (ownProps obj)) \<Longrightarrow> distinct (map fst (ownProps (namedFields obj ks vs)))"
  by (induction obj ks vs rule: namedFields.induct) (simp_all add: obj_set_distinct)

lemma namedFields_lookup:
  "k' \<noteq> ''__proto__'' \<Longrightarrow>
   map_of (ownProps (namedFields obj ks vs)) k' =
     (map_of (ownProps obj) ++ map_of (rev (zip ks vs))) k'"
  by (induction obj ks vs rule: namedFields.induct)
     (simp_all add: obj_set_lookup map_add_def split: option.splits)

lemma namedFields_proto:
  "''__proto__'' \<notin> set ks \<Longrightarrow> protoOf (namedFields obj ks vs) = protoOf obj"
  by (induction obj ks vs rule: namedFields.induct) (auto simp: obj_set_other)

lemma JsObject_collapse: "Obj (ownProps obj) (protoOf obj) = obj"
  by (cases obj) simp

lemma namedFields_plain:
  "plainNames ks \<Longrightarrow> set ks \<inter> fst ` set (ownProps obj) = {} \<Longrightarrow>
   namedFields obj ks vs = Obj (ownProps obj @ zip ks vs) (protoOf obj)"
proof (induction obj ks vs rule: namedFields.induct)
  case (1 obj k ks v vs)
  from "1.prems" have k: "k \<noteq> ''__proto__''" "arrayIndex k = None" "k \<notin> fst ` set (ownProps obj)"
    "k \<notin> set ks" and rest: "plainNames ks"
    by (auto simp: plainNames_def)
  then have step: "obj_set obj k v = Obj (ownProps obj @ [(k, v)]) (protoOf obj)"
    by (simp add: obj_set_other ownSet_append)
  have "set ks \<inter> fst ` set (ownProps (obj_set obj k v)) = {}"
    using "1.prems"(2) k by (auto simp: step)
  with rest have "namedFields (obj_set obj k v) ks vs =
      Obj (ownProps (obj_set obj k v) @ zip ks vs) (protoOf (obj_set obj k v))"
    by (rule "1.IH")
  then show ?case by (simp add: step)
qed (simp_all add: JsObject_collapse)

lemma namedFields_holds:
  assumes "length vs = length ks"
  shows "holdsNamedFields (namedFields (Obj [] ObjectPrototype) ks vs) ks vs"
  unfolding holdsNamedFields_def
proof (intro conjI ballI impI)
  show "distinct (map fst (ownProps (namedFields (Obj [] ObjectPrototype) ks vs)))"
    by (rule namedFields_distinct) simp
  show "fst ` set (ownProps (namedFields (Obj [] ObjectPrototype) ks vs)) \<subseteq> set ks"
    using namedFields_keys [of "Obj [] ObjectPrototype" ks vs] by simp
  show "map_of (ownProps (namedFields (Obj [] ObjectPrototype) ks vs)) k = map_of (rev (zip ks vs)) k"
    if "k \<noteq> ''__proto__''" for k
    using that by (simp add: namedFields_lookup)
  show "protoOf (namedFields (Obj [] ObjectPrototype) ks vs) = ObjectPrototype"
    if "''__proto__'' \<notin> set ks"
    using that by (simp add: namedFields_proto)
qed

lemma namedFields_contains:
  assumes "length vs = length ks" and "k \<in> set ks" and "k \<noteq> ''__proto__''"
  shows "k \<in> fst ` set (ownProps (namedFields obj ks vs))"
proof -
  from assms(1) have "map fst (zip ks vs) = ks"
    by (simp add: map_fst_zip)
  then have "set (map fst (zip ks vs)) = set ks"
    by (simp del: set_map)
  with assms(2) have "k \<in> fst ` set (rev (zip ks vs))"
    by simp
  then have "map_of (rev (zip ks vs)) k \<noteq> None"
    by (simp add: map_of_eq_None_iff)
  with assms(3) have "map_of (ownProps (namedFields obj ks vs)) k \<noteq> None"
    by (auto simp: namedFields_lookup map_add_def split: option.splits)
  then show ?thesis
    by (simp add: map_of_eq_None_iff)
qed

section \<open>Discriminator engine\<close>

lemma typedArraySet_prefix:
  "typedArraySet (replicate (length a + n) z) a 0 = Inr (a @ replicate n z)"
  by (simp add: typedArraySet_def)

lemma typedArraySet_suffix:
  "typedArraySet (a @ replicate (length b) z) b (length a) = Inr (a @ b)"
  by (simp add: typedArraySet_def)

lemma anchorDiscriminator_eq:
  "anchorDiscriminatorForAccount P name = Inr (discriminatorOf P name)"
  by (simp add: anchorDiscriminatorForAccount_def Let_def typedArraySet_prefix
      typedArraySet_suffix discriminatorOf_def del: replicate_add)

lemma digest32_sample: "digest32 samplePlatform"
  by (auto simp: digest32_def samplePlatform_def)

lemma discriminatorOf_length: "digest32 P \<Longrightarrow> length (discriminatorOf P name) = 8"
  by (simp add: digest32_def discriminatorOf_def)

text \<open>
  C3. For every account type name, the discriminator the code computes is the first 8
  bytes of the digest of the bytes of \<open>"account:"\<close> (the ASCII codes 97 99 99 111 117
  110 116 58) immediately followed by the bytes of the name, with no separator and no
  length prefix: the hashed input is 8 bytes longer than the name. Assembling the input
  never fails, the result is a function of the name alone, and it has 8 bytes whenever the
  digest has 32.
\<close>

theorem discriminator_first8_of_digest:
  "anchorDiscriminatorForAccount P name = Inr (discriminatorOf P name)
   \<and> discriminatorOf P name = take 8 (sha256 P (textEncode (''account:'' @ name)))
   \<and> textEncode (''account:'' @ name) = [97, 99, 99, 111, 117, 110, 116, 58] @ textEncode name
   \<and> length (textEncode (''account:'' @ name)) = 8 + length name
   \<and> (digest32 P \<longrightarrow> length (discriminatorOf P name) = 8)"
  by (simp add: anchorDiscriminator_eq discriminatorOf_length) (simp add: discriminatorOf_def textEncode_def)

theorem discriminator_first8_of_digest_witness:
  "anchorDiscriminatorForAccount samplePlatform ''Vault'' = Inr [116, 108, 117, 97, 86, 58, 116, 110]
   \<and> length (discriminatorOf samplePlatform ''Vault'') = 8"
  using discriminator_first8_of_digest [of samplePlatform "''Vault''"] digest32_sample
  by (simp add: samplePlatform_def textEncode_def)

section \<open>Account resolver: helper facts\<close>

lemma everyEqual_iff: "everyEqual d other \<longleftrightarrow> length d \<le> length other \<and> take (length d) other = d"
  by (induction d other rule: everyEqual.induct) auto

lemma everyEqual_slice:
  "digest32 P \<Longrightarrow> everyEqual (discriminatorOf P name) (sliceBytes bytes 0 8) = tagMatches P bytes name"
  by (auto simp: everyEqual_iff sliceBytes_def tagMatches_def discriminatorOf_length)

lemma everyEqual_bytes:
  "digest32 P \<Longrightarrow> everyEqual (discriminatorOf P name) bytes = tagMatches P bytes name"
  by (auto simp: everyEqual_iff tagMatches_def discriminatorOf_length)

lemma decodeBody_not_NoMatch: "decodeBody depth P body idl name flds \<noteq> Inr None"
  by (simp add: decodeBody_def split: sum.splits prod.splits)

lemma accountLoop_find:
  assumes "digest32 P"
  shows "accountLoop depth P bytes idl (sliceBytes bytes 0 8) accs =
     (case find (candidate P bytes idl) accs of
        None \<Rightarrow> Inr None
      | Some a \<Rightarrow>
          (case getAccountStructFields idl (acc_name a) of
             None \<Rightarrow> Inr None
           | Some flds \<Rightarrow> decodeBody depth P (drop 8 bytes) idl (acc_name a) flds))"
proof (induction accs)
  case Nil
  show ?case by simp
next
  case (Cons a accs)
  show ?case
  proof (cases "candidate P bytes idl a")
    case True
    then show ?thesis
      using assms by (auto simp: anchorDiscriminator_eq everyEqual_slice candidate_def)
  next
    case False
    then show ?thesis
      using assms Cons.IH
      by (auto simp: anchorDiscriminator_eq everyEqual_slice candidate_def)
  qed
qed

lemma parseAccountWithIdl_find:
  assumes "digest32 P"
  shows "parseAccountWithIdl depth P bytes idl =
     (case find (candidate P bytes idl) (accountsOf idl) of
        None \<Rightarrow> Inr None
      | Some a \<Rightarrow>
          (case getAccountStructFields idl (acc_name a) of
             None \<Rightarrow> Inr None
           | Some flds \<Rightarrow> decodeBody depth P (drop 8 bytes) idl (acc_name a) flds))"
  using accountLoop_find [OF assms]
  by (auto simp: parseAccountWithIdl_def accountsOf_def split: option.splits)

lemma getAccountStructFields_None_iff:
  "getAccountStructFields idl name = None \<longleftrightarrow>
     (\<forall>a. findAccount idl name = Some a \<longrightarrow>
        (\<forall>flds. acc_type a \<noteq> Some (AccStruct flds)) \<and>
        (\<forall>d flds. acc_type a = Some (AccDefined d) \<longrightarrow> resolveDefined idl d \<noteq> Some (StructDef flds))) \<and>
     (\<forall>flds. resolveDefined idl name \<noteq> Some (StructDef flds))"
  by (auto simp: getAccountStructFields_def Let_def split: option.splits AccountType.splits TypeDef.splits)

lemma find_append_first:
  "\<forall>b \<in> set pre. \<not> Q b \<Longrightarrow> Q a \<Longrightarrow> find Q (pre @ a # post) = Some a"
  by (induction pre) auto

lemma readString_sha256_irrelevant:
  "readString (P\<lparr>sha256 := h\<rparr>) bytes off = readString P bytes off"
  by (simp add: readString_def split: sum.splits)

lemma decodeType_sha256_irrelevant:
  "decodeType depth (P\<lparr>sha256 := h\<rparr>) bytes off ty idl = decodeType depth P bytes off ty idl"
proof (induction depth arbitrary: off ty)
  case 0
  show ?case by (simp add: decodeType.simps)
next
  case (Suc depth)
  have dec: "(\<lambda>off' ty'. decodeType depth (P\<lparr>sha256 := h\<rparr>) bytes off' ty' idl) =
      (\<lambda>off' ty'. decodeType depth P bytes off' ty' idl)"
    by (simp add: Suc.IH)
  show ?case
    by (cases ty) (simp_all add: decodeType.simps dec readString_sha256_irrelevant)
qed

lemma decodeBody_sha256_irrelevant:
  "decodeBody depth (P\<lparr>sha256 := h\<rparr>) body idl name flds = decodeBody depth P body idl name flds"
  by (simp add: decodeBody_def decodeType_sha256_irrelevant)

lemma findAccount_name: "findAccount idl sel = Some acc \<Longrightarrow> acc_name acc = sel"
  by (auto simp: findAccount_def find_Some_iff split: option.splits)

lemma sample_discriminators:
  "discriminatorOf samplePlatform ''Vault'' = [116, 108, 117, 97, 86, 58, 116, 110]"
  "discriminatorOf samplePlatform ''Config'' = [103, 105, 102, 110, 111, 67, 58, 116]"
  by (simp_all add: discriminatorOf_def samplePlatform_def textEncode_def)

lemma sample_fields:
  "getAccountStructFields sampleIdl ''Vault'' = Some [(''open'', TName ''bool'')]"
  "getAccountStructFields sampleIdl ''Config'' = Some [(''level'', TName ''u8'')]"
  by (simp_all add: getAccountStructFields_def findAccount_def resolveDefined_def sampleIdl_def)

lemma decode_u8_at:
  "off < length bytes \<Longrightarrow>
   decodeType (Suc depth) P bytes off (TName ''u8'') idl = Inr (VNum (uint (bytes ! off)), off + 1)"
  by (simp add: decodeType.simps numResult_def readU8_def advance_def getUint_def take_Suc_conv_app_nth hd_drop_conv_nth)

lemma findAccount_sample: "findAccount sampleIdl ''Config'' =
    Some \<lparr>acc_name = ''Config'', acc_type = Some (AccDefined ''ConfigData'')\<rparr>"
  by (simp add: findAccount_def sampleIdl_def)

section \<open>Account resolver: auto-detect mode\<close>

text \<open>
  C1. In auto-detect mode, for every buffer and schema (and every digest function that
  returns 32 bytes), \<open>parseAccountWithIdl\<close> goes through the declared account types in
  schema order and compares each type's discriminator with the first 8 bytes of the
  buffer. If no declared type's discriminator matches (in particular, if the buffer has
  fewer than 8 bytes), the result is the negative result \<open>Inr None\<close>, not an error. If
  \<open>a\<close> is the first type in schema order whose discriminator matches, and its field list
  is \<open>flds\<close>, the result is that of decoding the buffer without its first 8 bytes, from
  offset 0, against \<open>flds\<close>, returned under the name of \<open>a\<close>; an error of that decode
  is the error of the whole call.
\<close>

theorem autodetect_first_match:
  assumes "digest32 P"
  shows "((\<forall>a \<in> set (accountsOf idl). \<not> tagMatches P bytes (acc_name a)) \<longrightarrow>
            parseAccountWithIdl depth P bytes idl = Inr None)
   \<and> (\<forall>pre a post flds.
         accountsOf idl = pre @ a # post \<and>
         (\<forall>b \<in> set pre. \<not> tagMatches P bytes (acc_name b)) \<and>
         tagMatches P bytes (acc_name a) \<and>
         getAccountStructFields idl (acc_name a) = Some flds \<longrightarrow>
         parseAccountWithIdl depth P bytes idl =
           (case decodeStruct (\<lambda>off ty. decodeType depth P (drop 8 bytes) off ty idl) 0 flds of
              Inl e \<Rightarrow> Inl e
            | Inr (obj, n) \<Rightarrow> Inr (Some \<lparr>accountName = acc_name a, data = obj\<rparr>)))"
proof (intro conjI allI impI)
  assume "\<forall>a \<in> set (accountsOf idl). \<not> tagMatches P bytes (acc_name a)"
  then have "find (candidate P bytes idl) (accountsOf idl) = None"
    by (auto simp: find_None_iff candidate_def)
  then show "parseAccountWithIdl depth P bytes idl = Inr None"
    by (simp add: parseAccountWithIdl_find [OF assms])
next
  fix pre a post flds
  assume h: "accountsOf idl = pre @ a # post \<and>
         (\<forall>b \<in> set pre. \<not> tagMatches P bytes (acc_name b)) \<and>
         tagMatches P bytes (acc_name a) \<and>
         getAccountStructFields idl (acc_name a) = Some flds"
  then have "find (candidate P bytes idl) (pre @ a # post) = Some a"
    by (intro find_append_first) (simp_all add: candidate_def)
  with h show "parseAccountWithIdl depth P bytes idl =
           (case decodeStruct (\<lambda>off ty. decodeType depth P (drop 8 bytes) off ty idl) 0 flds of
              Inl e \<Rightarrow> Inl e
            | Inr (obj, n) \<Rightarrow> Inr (Some \<lparr>accountName = acc_name a, data = obj\<rparr>))"
    by (simp add: parseAccountWithIdl_find [OF assms] decodeBody_def)
qed

theorem autodetect_first_match_witness:
  "parseAccountWithIdl (Suc 0) samplePlatform [0, 1, 2, 3, 4, 5, 6, 7, 5] sampleIdl = Inr None
   \<and> parseAccountWithIdl (Suc 0) samplePlatform [103, 105, 102, 110, 111, 67, 58, 116, 5] sampleIdl =
       Inr (Some \<lparr>accountName = ''Config'', data = Obj [(''level'', VNum 5)] ObjectPrototype\<rparr>)"
proof -
  note t = autodetect_first_match [OF digest32_sample, where idl = sampleIdl and depth = "Suc 0"]
  have accs: "accountsOf sampleIdl =
      [\<lparr>acc_name = ''Vault'', acc_type = Some (AccStruct [(''open'', TName ''bool'')])\<rparr>] @
      \<lparr>acc_name = ''Config'', acc_type = Some (AccDefined ''ConfigData'')\<rparr> # []"
    by (simp add: accountsOf_def sampleIdl_def)
  have none: "\<forall>a \<in> set (accountsOf sampleIdl). \<not> tagMatches samplePlatform [0, 1, 2, 3, 4, 5, 6, 7, 5] (acc_name a)"
    by (simp add: accs tagMatches_def sample_discriminators)
  have first: "accountsOf sampleIdl =
      [\<lparr>acc_name = ''Vault'', acc_type = Some (AccStruct [(''open'', TName ''bool'')])\<rparr>] @
      \<lparr>acc_name = ''Config'', acc_type = Some (AccDefined ''ConfigData'')\<rparr> # [] \<and>
      (\<forall>b \<in> set [\<lparr>acc_name = ''Vault'', acc_type = Some (AccStruct [(''open'', TName ''bool'')])\<rparr>].
         \<not> tagMatches samplePlatform [103, 105, 102, 110, 111, 67, 58, 116, 5] (acc_name b)) \<and>
      tagMatches samplePlatform [103, 105, 102, 110, 111, 67, 58, 116, 5]
        (acc_name \<lparr>acc_name = ''Config'', acc_type = Some (AccDefined ''ConfigData'')\<rparr>) \<and>
      getAccountStructFields sampleIdl
        (acc_name \<lparr>acc_name = ''Config'', acc_type = Some (AccDefined ''ConfigData'')\<rparr>) =
        Some [(''level'', TName ''u8'')]"
    using accs by (simp add: tagMatches_def sample_discriminators sample_fields)
  from t [THEN conjunct1, THEN mp, OF none]
    t [THEN conjunct2, THEN spec, THEN spec, THEN spec, THEN spec, THEN mp, OF first]
  show ?thesis
    by (simp add: decodeStruct_def decode_u8_at)
qed

text \<open>
  C10. In auto-detect mode, an account type whose discriminator matches but whose field
  list cannot be located is skipped, and the scan goes on with the later types in schema
  order: the result is decided by the first type that both matches and has a locatable
  field list, and it is the negative result \<open>Inr None\<close> exactly when there is no such
  type. A field list cannot be located exactly when the account entry of that name (if
  any) has no inline struct and no reference that resolves to a struct, and the auxiliary
  types hold no struct of that name.
\<close>

theorem autodetect_skips_candidates_without_fields:
  assumes "digest32 P"
  shows "parseAccountWithIdl depth P bytes idl =
     (case find (candidate P bytes idl) (accountsOf idl) of
        None \<Rightarrow> Inr None
      | Some a \<Rightarrow>
          (case getAccountStructFields idl (acc_name a) of
             None \<Rightarrow> Inr None
           | Some flds \<Rightarrow> decodeBody depth P (drop 8 bytes) idl (acc_name a) flds))
   \<and> (parseAccountWithIdl depth P bytes idl = Inr None \<longleftrightarrow>
        \<not> (\<exists>a \<in> set (accountsOf idl). candidate P bytes idl a))
   \<and> (getAccountStructFields idl name = None \<longleftrightarrow>
        (\<forall>a. findAccount idl name = Some a \<longrightarrow>
           (\<forall>flds. acc_type a \<noteq> Some (AccStruct flds)) \<and>
           (\<forall>d flds. acc_type a = Some (AccDefined d) \<longrightarrow> resolveDefined idl d \<noteq> Some (StructDef flds))) \<and>
        (\<forall>flds. resolveDefined idl name \<noteq> Some (StructDef flds)))"
proof (intro conjI)
  show "parseAccountWithIdl depth P bytes idl =
     (case find (candidate P bytes idl) (accountsOf idl) of
        None \<Rightarrow> Inr None
      | Some a \<Rightarrow>
          (case getAccountStructFields idl (acc_name a) of
             None \<Rightarrow> Inr None
           | Some flds \<Rightarrow> decodeBody depth P (drop 8 bytes) idl (acc_name a) flds))"
    by (rule parseAccountWithIdl_find [OF assms])
  show "parseAccountWithIdl depth P bytes idl = Inr None \<longleftrightarrow>
        \<not> (\<exists>a \<in> set (accountsOf idl). candidate P bytes idl a)"
  proof (cases "find (candidate P bytes idl) (accountsOf idl)")
    case None
    then have "\<not> (\<exists>a \<in> set (accountsOf idl). candidate P bytes idl a)"
      by (simp add: find_None_iff)
    with None show ?thesis
      by (simp add: parseAccountWithIdl_find [OF assms])
  next
    case (Some a)
    then have a: "a \<in> set (accountsOf idl)" "candidate P bytes idl a"
      by (auto simp: find_Some_iff)
    then obtain flds where "getAccountStructFields idl (acc_name a) = Some flds"
      by (auto simp: candidate_def)
    with Some a show ?thesis
      by (auto simp: parseAccountWithIdl_find [OF assms] decodeBody_not_NoMatch)
  qed
  show "getAccountStructFields idl name = None \<longleftrightarrow>
        (\<forall>a. findAccount idl name = Some a \<longrightarrow>
           (\<forall>flds. acc_type a \<noteq> Some (AccStruct flds)) \<and>
           (\<forall>d flds. acc_type a = Some (AccDefined d) \<longrightarrow> resolveDefined idl d \<noteq> Some (StructDef flds))) \<and>
        (\<forall>flds. resolveDefined idl name \<noteq> Some (StructDef flds))"
    by (rule getAccountStructFields_None_iff)
qed

theorem autodetect_skips_candidates_without_fields_witness:
  "parseAccountWithIdl (Suc 0) samplePlatform [101, 116, 97, 116, 83, 116, 108, 117, 5] collidingIdl =
     Inr (Some \<lparr>accountName = ''BVaultState'', data = Obj [(''level'', VNum 5)] ObjectPrototype\<rparr>)
   \<and> tagMatches samplePlatform [101, 116, 97, 116, 83, 116, 108, 117, 5] ''AVaultState''
   \<and> getAccountStructFields collidingIdl ''AVaultState'' = None
   \<and> parseAccountWithIdl (Suc 0) samplePlatform [101, 116, 97, 116, 83, 116, 108, 117] (collidingIdl\<lparr>idl_accounts := Some [\<lparr>acc_name = ''AVaultState'', acc_type = None\<rparr>]\<rparr>) = Inr None"
proof -
  have d: "discriminatorOf samplePlatform ''AVaultState'' = [101, 116, 97, 116, 83, 116, 108, 117]"
    "discriminatorOf samplePlatform ''BVaultState'' = [101, 116, 97, 116, 83, 116, 108, 117]"
    by (simp_all add: discriminatorOf_def samplePlatform_def textEncode_def)
  have f: "getAccountStructFields collidingIdl ''AVaultState'' = None"
    "getAccountStructFields collidingIdl ''BVaultState'' = Some [(''level'', TName ''u8'')]"
    "getAccountStructFields (collidingIdl\<lparr>idl_accounts := Some [\<lparr>acc_name = ''AVaultState'', acc_type = None\<rparr>]\<rparr>) ''AVaultState'' = None"
    by (simp_all add: getAccountStructFields_def findAccount_def resolveDefined_def collidingIdl_def)
  have a: "accountsOf collidingIdl =
      [\<lparr>acc_name = ''AVaultState'', acc_type = None\<rparr>,
       \<lparr>acc_name = ''BVaultState'', acc_type = Some (AccStruct [(''level'', TName ''u8'')])\<rparr>]"
    "accountsOf (collidingIdl\<lparr>idl_accounts := Some [\<lparr>acc_name = ''AVaultState'', acc_type = None\<rparr>]\<rparr>) =
      [\<lparr>acc_name = ''AVaultState'', acc_type = None\<rparr>]"
    by (simp_all add: accountsOf_def collidingIdl_def)
  note t = autodetect_skips_candidates_without_fields [OF digest32_sample, where depth = "Suc 0"]
  from t [of "[101, 116, 97, 116, 83, 116, 108, 117, 5]" collidingIdl, THEN conjunct1]
    t [of "[101, 116, 97, 116, 83, 116, 108, 117]" "collidingIdl\<lparr>idl_accounts := Some [\<lparr>acc_name = ''AVaultState'', acc_type = None\<rparr>]\<rparr>", THEN conjunct2, THEN conjunct1]
  show ?thesis
    by (simp add: a d f candidate_def tagMatches_def decodeBody_def decodeStruct_def decode_u8_at)
qed

section \<open>Account resolver: explicit mode\<close>

text \<open>
  C2. In explicit mode, when the caller names an account type \<open>sel\<close> that the schema
  declares, the resolver decodes against that type's field list from offset 8 if the buffer
  has at least 8 bytes and its first 8 bytes equal the type's discriminator, and from
  offset 0 otherwise (a mismatch, or a buffer shorter than 8 bytes). For a buffer shorter
  than 8 bytes the result is that of decoding from offset 0 whatever the digest function
  is: no tag is compared. The result is the negative result \<open>Inr None\<close> exactly when
  the field list cannot be located, whatever the bytes: never because of a tag mismatch.
\<close>

theorem explicit_mode_trusts_selection:
  assumes "digest32 P" and "sel \<noteq> []" and "findAccount idl sel = Some acc"
  shows "parseAccountAutoOrSelected depth P bytes idl (Some sel) =
     (case getAccountStructFields idl sel of
        None \<Rightarrow> Inr None
      | Some flds \<Rightarrow>
          decodeBody depth P (drop (if tagMatches P bytes sel then 8 else 0) bytes) idl sel flds)
   \<and> (length bytes < 8 \<longrightarrow>
        (\<forall>h. parseAccountAutoOrSelected depth (P\<lparr>sha256 := h\<rparr>) bytes idl (Some sel) =
           (case getAccountStructFields idl sel of
              None \<Rightarrow> Inr None
            | Some flds \<Rightarrow> decodeBody depth P bytes idl sel flds)))
   \<and> (parseAccountAutoOrSelected depth P bytes idl (Some sel) = Inr None \<longleftrightarrow>
        getAccountStructFields idl sel = None)"
proof -
  have name: "acc_name acc = sel"
    using assms(3) by (rule findAccount_name)
  have main: "parseAccountAutoOrSelected depth P bytes idl (Some sel) =
     (case getAccountStructFields idl sel of
        None \<Rightarrow> Inr None
      | Some flds \<Rightarrow>
          decodeBody depth P (drop (if tagMatches P bytes sel then 8 else 0) bytes) idl sel flds)"
    using assms name
    by (auto simp: parseAccountAutoOrSelected_def anchorDiscriminator_eq everyEqual_bytes
        tagMatches_def split: option.splits)
  have short: "parseAccountAutoOrSelected depth (P\<lparr>sha256 := h\<rparr>) bytes idl (Some sel) =
           (case getAccountStructFields idl sel of
              None \<Rightarrow> Inr None
            | Some flds \<Rightarrow> decodeBody depth P bytes idl sel flds)" if "length bytes < 8" for h
    using assms(2,3) name that
    by (auto simp: parseAccountAutoOrSelected_def decodeBody_sha256_irrelevant split: option.splits)
  have nomatch: "parseAccountAutoOrSelected depth P bytes idl (Some sel) = Inr None \<longleftrightarrow>
        getAccountStructFields idl sel = None"
    by (auto simp: main decodeBody_not_NoMatch split: option.splits)
  from main short nomatch show ?thesis by blast
qed

theorem explicit_mode_trusts_selection_witness:
  "parseAccountAutoOrSelected (Suc 0) samplePlatform [103, 105, 102, 110, 111, 67, 58, 116, 5] sampleIdl (Some ''Config'') =
     Inr (Some \<lparr>accountName = ''Config'', data = Obj [(''level'', VNum 5)] ObjectPrototype\<rparr>)
   \<and> parseAccountAutoOrSelected (Suc 0) samplePlatform [9, 1, 2, 3, 4, 5, 6, 7, 5] sampleIdl (Some ''Config'') =
     Inr (Some \<lparr>accountName = ''Config'', data = Obj [(''level'', VNum 9)] ObjectPrototype\<rparr>)
   \<and> parseAccountAutoOrSelected (Suc 0) (samplePlatform\<lparr>sha256 := (\<lambda>input. [])\<rparr>) [4, 3, 2, 1] sampleIdl (Some ''Config'') =
     Inr (Some \<lparr>accountName = ''Config'', data = Obj [(''level'', VNum 4)] ObjectPrototype\<rparr>)"
proof -
  have sel: "''Config'' \<noteq> []" by simp
  note t = explicit_mode_trusts_selection [OF digest32_sample sel findAccount_sample, where depth = "Suc 0"]
  have short: "length [4, 3, 2, 1 :: byte] < 8" by simp
  from t [of "[103, 105, 102, 110, 111, 67, 58, 116, 5]", THEN conjunct1]
    t [of "[9, 1, 2, 3, 4, 5, 6, 7, 5]", THEN conjunct1]
    t [of "[4, 3, 2, 1]", THEN conjunct2, THEN conjunct1, THEN mp, OF short, THEN spec, of "\<lambda>input. []"]
  show ?thesis
    by (simp add: sample_fields tagMatches_def sample_discriminators decodeBody_def decodeStruct_def decode_u8_at)
qed

section \<open>64-bit integers\<close>

lemma digitChar_cases:
  "d < 10 \<Longrightarrow> digitChar d \<in> set ''0123456789'' \<and> digitValue (digitChar d) = d"
proof -
  assume "d < 10"
  then have "d \<in> {0, 1, 2, 3, 4, 5, 6, 7, 8, 9}" by auto
  then show ?thesis
    by (auto simp: digitChar_def digitValue_def)
qed

lemma decimalNat_snoc: "decimalNat (s @ [c]) = 10 * decimalNat s + digitValue c"
  by (simp add: decimalNat_def)

lemma decimalNat_natToString: "decimalNat (natToString 10 n) = n"
proof (induction n rule: less_induct)
  case (less n)
  show ?case
  proof (cases "n < 10")
    case True
    then show ?thesis
      by (simp add: natToString.simps [of 10 n] decimalNat_def digitChar_cases)
  next
    case False
    then have "decimalNat (natToString 10 (n div 10)) = n div 10"
      by (intro less.IH) simp
    with False show ?thesis
      by (simp add: natToString.simps [of 10 n] decimalNat_snoc digitChar_cases)
  qed
qed

lemma natToString_digits: "set (natToString 10 n) \<subseteq> set ''0123456789''"
proof (induction n rule: less_induct)
  case (less n)
  show ?case
  proof (cases "n < 10")
    case True
    then show ?thesis
      using digitChar_cases [of n] by (simp add: natToString.simps [of 10 n])
  next
    case False
    then have "set (natToString 10 (n div 10)) \<subseteq> set ''0123456789''"
      by (intro less.IH) simp
    with False show ?thesis
      using digitChar_cases [of "n mod 10"] by (simp add: natToString.simps [of 10 n])
  qed
qed

lemma natToString_nonempty: "natToString 10 n \<noteq> []"
  by (simp add: natToString.simps [of 10 n])

lemma decimalValue_natToString: "decimalValue (natToString 10 n) = int n"
proof (cases "natToString 10 n")
  case Nil
  then show ?thesis by (simp add: natToString_nonempty)
next
  case (Cons c t)
  then have "c \<in> set ''0123456789''"
    using natToString_digits [of n] by auto
  then have "c \<noteq> CHR ''-''" by auto
  with Cons show ?thesis
    using decimalNat_natToString [of n] by (simp add: decimalValue_def)
qed

lemma decimalValue_bigintToString: "decimalValue (bigintToString v) = v"
  by (simp add: bigintToString_def decimalValue_natToString) (simp add: decimalValue_def decimalNat_natToString)

lemma decode_u64_at:
  "off + 8 \<le> length bytes \<Longrightarrow>
   decodeType (Suc depth) P bytes off (TName ''u64'') idl =
     Inr (VStr (bigintToString (int (leValue (sliceBytes bytes off (off + 8))))), off + 8)"
  by (simp add: decodeType.simps bigResult_def readU64_def advance_def getUint_def sliceBytes_def)

lemma decode_i64_at:
  "off + 8 \<le> length bytes \<Longrightarrow>
   decodeType (Suc depth) P bytes off (TName ''i64'') idl =
     Inr (VStr (bigintToString (toSigned 8 (leValue (sliceBytes bytes off (off + 8))))), off + 8)"
  by (simp add: decodeType.simps bigResult_def readI64_def advance_def getInt_def sliceBytes_def)

lemma leValue_bound: "leValue bs < 256 ^ length bs"
proof (induction bs)
  case Nil
  show ?case by simp
next
  case (Cons b bs)
  have "unat b < 2 ^ LENGTH(8)" by (rule unsigned_less)
  then have "unat b < 256" by simp
  with Cons show ?case by simp
qed


lemma counter_scenario:
  assumes "digest32 P"
  shows "parseAccountWithIdl (Suc depth) P (discriminatorOf P ''Counter'' @ [7, 0, 0, 0, 0, 0, 0, 0]) counterIdl =
     Inr (Some \<lparr>accountName = ''Counter'', data = Obj [(''count'', VStr ''7'')] ObjectPrototype\<rparr>)"
proof -
  have len: "length (discriminatorOf P ''Counter'') = 8"
    using assms by (rule discriminatorOf_length)
  have flds: "getAccountStructFields counterIdl ''Counter'' = Some [(''count'', TName ''u64'')]"
    by (simp add: getAccountStructFields_def findAccount_def resolveDefined_def counterIdl_def)
  have accs: "accountsOf counterIdl =
      [\<lparr>acc_name = ''Counter'', acc_type = Some (AccStruct [(''count'', TName ''u64'')])\<rparr>]"
    by (simp add: accountsOf_def counterIdl_def)
  have seven: "bigintToString (int (leValue (sliceBytes [7, 0, 0, 0, 0, 0, 0, 0] 0 8))) = ''7''"
    by (simp add: sliceBytes_def bigintToString_def natToString.simps digitChar_def)
  show ?thesis
    by (simp add: parseAccountWithIdl_find [OF assms] accs candidate_def tagMatches_def len flds
        decodeBody_def decodeStruct_def decode_u64_at [where off = 0, simplified] seven)
qed

text \<open>
  C8. For every \<open>u64\<close> or \<open>i64\<close> field with 8 bytes left at the cursor, the decoder
  reads the 8 bytes as a little-endian number (unsigned below \<open>2 ^ 64\<close>, or its two's
  complement reading), returns it as the string \<open>BigInt.toString\<close> gives, and advances
  the cursor by 8. That string is exact: read as a decimal numeral it denotes the value
  itself, for every integer. In scenario A, the bytes of the discriminator of
  \<open>Counter\<close> followed by the little-endian 64-bit value 7 decode, in auto-detect mode,
  to the account \<open>Counter\<close> with the data \<open>{count: "7"}\<close>.
\<close>

theorem int64_as_decimal_string:
  "(off + 8 \<le> length bytes \<longrightarrow>
      decodeType (Suc depth) P bytes off (TName ''u64'') idl =
        Inr (VStr (bigintToString (int (leValue (sliceBytes bytes off (off + 8))))), off + 8)
      \<and> decodeType (Suc depth) P bytes off (TName ''i64'') idl =
        Inr (VStr (bigintToString (toSigned 8 (leValue (sliceBytes bytes off (off + 8))))), off + 8)
      \<and> leValue (sliceBytes bytes off (off + 8)) < 2 ^ 64)
   \<and> decimalValue (bigintToString v) = v
   \<and> (digest32 P \<longrightarrow>
        parseAccountWithIdl (Suc depth) P (discriminatorOf P ''Counter'' @ [7, 0, 0, 0, 0, 0, 0, 0]) counterIdl =
          Inr (Some \<lparr>accountName = ''Counter'', data = Obj [(''count'', VStr ''7'')] ObjectPrototype\<rparr>))"
proof (intro conjI impI)
  assume h: "off + 8 \<le> length bytes"
  then show "decodeType (Suc depth) P bytes off (TName ''u64'') idl =
        Inr (VStr (bigintToString (int (leValue (sliceBytes bytes off (off + 8))))), off + 8)"
    by (rule decode_u64_at)
  from h show "decodeType (Suc depth) P bytes off (TName ''i64'') idl =
        Inr (VStr (bigintToString (toSigned 8 (leValue (sliceBytes bytes off (off + 8))))), off + 8)"
    by (rule decode_i64_at)
  from h have "length (sliceBytes bytes off (off + 8)) = 8"
    by (simp add: sliceBytes_def)
  then show "leValue (sliceBytes bytes off (off + 8)) < 2 ^ 64"
    using leValue_bound [of "sliceBytes bytes off (off + 8)"] by simp
next
  show "decimalValue (bigintToString v) = v"
    by (rule decimalValue_bigintToString)
next
  assume "digest32 P"
  then show "parseAccountWithIdl (Suc depth) P (discriminatorOf P ''Counter'' @ [7, 0, 0, 0, 0, 0, 0, 0]) counterIdl =
          Inr (Some \<lparr>accountName = ''Counter'', data = Obj [(''count'', VStr ''7'')] ObjectPrototype\<rparr>)"
    by (rule counter_scenario)
qed

theorem int64_as_decimal_string_witness:
  "decodeType (Suc 0) samplePlatform [255, 255, 255, 255, 255, 255, 255, 255] 0 (TName ''u64'') sampleIdl =
     Inr (VStr ''18446744073709551615'', 8)
   \<and> decodeType (Suc 0) samplePlatform [255, 255, 255, 255, 255, 255, 255, 255] 0 (TName ''i64'') sampleIdl =
     Inr (VStr ''-1'', 8)
   \<and> decimalValue ''18446744073709551615'' = 18446744073709551615
   \<and> parseAccountWithIdl (Suc 0) samplePlatform [114, 101, 116, 110, 117, 111, 67, 58, 7, 0, 0, 0, 0, 0, 0, 0] counterIdl =
     Inr (Some \<lparr>accountName = ''Counter'', data = Obj [(''count'', VStr ''7'')] ObjectPrototype\<rparr>)"
proof -
  have room: "0 + 8 \<le> length [255, 255, 255, 255, 255, 255, 255, 255 :: byte]" by simp
  have big: "bigintToString 18446744073709551615 = ''18446744073709551615''"
    "bigintToString (- 1) = ''-1''"
    by (simp_all add: bigintToString_def natToString.simps digitChar_def)
  have disc: "discriminatorOf samplePlatform ''Counter'' = [114, 101, 116, 110, 117, 111, 67, 58]"
    by (simp add: discriminatorOf_def samplePlatform_def textEncode_def)
  note t = int64_as_decimal_string [of 0 _ 0 samplePlatform]
  from t [of "[255, 255, 255, 255, 255, 255, 255, 255]" sampleIdl, THEN conjunct1, THEN mp, OF room]
    t [of "[]" sampleIdl 18446744073709551615, THEN conjunct2, THEN conjunct1]
    t [of "[]" sampleIdl, THEN conjunct2, THEN conjunct2, THEN mp, OF digest32_sample]
  show ?thesis
    by (simp add: sliceBytes_def toSigned_def big disc)
qed

section \<open>Enums\<close>

lemma tupleLoop_decodeSeq:
  "tupleLoop dec ts arr off =
     (case decodeSeq dec ts off of Inl e \<Rightarrow> Inl e | Inr (vs, m) \<Rightarrow> Inr (arr @ vs, m))"
  by (induction ts arbitrary: arr off) (auto split: sum.splits)

lemma readLoop_decodeSeq:
  "readLoop dec elem count out off =
     (case decodeSeq dec (replicate count elem) off of Inl e \<Rightarrow> Inl e | Inr (vs, m) \<Rightarrow> Inr (out @ vs, m))"
  by (induction count arbitrary: out off) (auto split: sum.splits)

lemma decodeSeq_length: "decodeSeq dec ts off = Inr (vs, m) \<Longrightarrow> length vs = length ts"
  by (induction ts arbitrary: off vs) (auto split: sum.splits)

lemma fieldLoop_decodeSeq:
  "fieldLoop dec fs obj off =
     (case decodeSeq dec (map snd fs) off of
        Inl e \<Rightarrow> Inl e
      | Inr (vs, m) \<Rightarrow> Inr (namedFields obj (map fst fs) vs, m))"
  by (induction fs arbitrary: obj off) (auto split: sum.splits)

lemma flatTupleLoop_asTypes:
  "asTypes es = Some ts \<Longrightarrow> flatTupleLoop dec es arr off = tupleLoop dec ts arr off"
  by (induction es arbitrary: ts arr off rule: asTypes.induct) (auto split: sum.splits)

lemma flatFieldLoop_asFields:
  "asFields es = Some fs \<Longrightarrow> flatFieldLoop dec es obj off = fieldLoop dec fs obj off"
  by (induction es arbitrary: fs obj off rule: asFields.induct) (auto split: sum.splits)



lemma flatTupleLoop_length:
  "flatTupleLoop dec es arr off = Inr (arr', n) \<Longrightarrow> length arr' = length arr + length es"
  by (induction dec es arr off arbitrary: arr' n rule: flatTupleLoop.induct) (auto split: sum.splits)

lemma flatFieldLoop_asFields_ex:
  "flatFieldLoop dec es obj off = Inr r \<Longrightarrow> \<exists>fs. asFields es = Some fs"
proof (induction es arbitrary: obj off)
  case Nil
  show ?case by simp
next
  case (Cons e es)
  show ?case
  proof (cases e)
    case (ElemField name t)
    with Cons.prems obtain v m where "flatFieldLoop dec es (obj_set obj name v) m = Inr r"
      by (auto split: sum.splits)
    then have "\<exists>fs. asFields es = Some fs" by (rule Cons.IH)
    with ElemField show ?thesis by auto
  next
    case (ElemType t)
    with Cons.prems show ?thesis by simp
  qed
qed

lemma asFields_names: "asFields es = Some fs \<Longrightarrow> {k. Some k \<in> elemName ` set es} = fst ` set fs"
proof (induction es arbitrary: fs rule: asFields.induct)
  case 1
  then show ?case by simp
next
  case (2 name t es)
  then obtain fs' where fs': "asFields es = Some fs'" "fs = (name, t) # fs'"
    by auto
  from "2.IH" [OF fs'(1)] fs'(2) show ?case by auto
next
  case (3 t es)
  then show ?case by simp
qed

lemma fieldLoop_error:
  "decodeSeq dec (map snd fs) off = Inl e \<Longrightarrow> fieldLoop dec fs obj off = Inl e"
  by (simp add: fieldLoop_decodeSeq)

lemma fieldLoop_named:
  assumes "decodeSeq dec (map snd fs) off = Inr (vs, n)"
  shows "\<exists>obj. fieldLoop dec fs (Obj [] ObjectPrototype) off = Inr (obj, n) \<and>
           holdsNamedFields obj (map fst fs) vs \<and>
           (plainNames (map fst fs) \<longrightarrow> obj = Obj (zip (map fst fs) vs) ObjectPrototype)"
proof -
  from assms have len: "length vs = length (map fst fs)"
    by (simp add: decodeSeq_length [OF assms])
  have loop: "fieldLoop dec fs (Obj [] ObjectPrototype) off =
      Inr (namedFields (Obj [] ObjectPrototype) (map fst fs) vs, n)"
    using assms by (simp add: fieldLoop_decodeSeq)
  have holds: "holdsNamedFields (namedFields (Obj [] ObjectPrototype) (map fst fs) vs) (map fst fs) vs"
    using len by (rule namedFields_holds)
  have plain: "namedFields (Obj [] ObjectPrototype) (map fst fs) vs = Obj (zip (map fst fs) vs) ObjectPrototype"
    if "plainNames (map fst fs)"
    using namedFields_plain [OF that, of "Obj [] ObjectPrototype" vs] by simp
  from loop holds plain show ?thesis by blast
qed

lemma readU8_at:
  "off < length bytes \<Longrightarrow> readU8 bytes off = Inr (uint (bytes ! off), off + 1)"
  by (simp add: readU8_def advance_def getUint_def take_Suc_conv_app_nth hd_drop_conv_nth)


lemma decodeEnum_at:
  assumes "off < length bytes" and "unat (bytes ! off) < length variants"
  shows "decodeEnum dec bytes off variants =
     (case var_fields (variants ! unat (bytes ! off)) of
        None \<Rightarrow> Inr (enumNoValue (uint (bytes ! off)) (var_name (variants ! unat (bytes ! off))), off + 1)
      | Some (FlatArray es) \<Rightarrow>
          if es \<noteq> [] \<and> isFieldObject (hd es)
          then wrapObj (uint (bytes ! off)) (var_name (variants ! unat (bytes ! off)))
                 (flatFieldLoop dec es (Obj [] ObjectPrototype) (off + 1))
          else wrapArr (uint (bytes ! off)) (var_name (variants ! unat (bytes ! off)))
                 (flatTupleLoop dec es [] (off + 1))
      | Some (KindStruct fs) \<Rightarrow>
          wrapObj (uint (bytes ! off)) (var_name (variants ! unat (bytes ! off)))
            (fieldLoop dec fs (Obj [] ObjectPrototype) (off + 1))
      | Some (KindTuple ts) \<Rightarrow>
          wrapArr (uint (bytes ! off)) (var_name (variants ! unat (bytes ! off)))
            (tupleLoop dec ts [] (off + 1))
      | Some KindOther \<Rightarrow>
          Inr (enumValue (uint (bytes ! off)) (var_name (variants ! unat (bytes ! off)))
                 (VObj (Obj [] ObjectPrototype)), off + 1))"
  using assms
  by (simp add: decodeEnum_def readU8_at Let_def split: option.splits VariantFields.splits)








lemma wrapObj_named:
  assumes "decodeSeq dec (map snd fs) off = Inr (vs, n)"
  shows "\<exists>obj. wrapObj tag name (fieldLoop dec fs (Obj [] ObjectPrototype) off) =
             Inr (enumValue tag name (VObj obj), n) \<and>
           holdsNamedFields obj (map fst fs) vs \<and>
           (plainNames (map fst fs) \<longrightarrow> obj = Obj (zip (map fst fs) vs) ObjectPrototype)"
  using fieldLoop_named [OF assms] by (auto simp: wrapObj_def)

lemma wrapObj_error:
  "decodeSeq dec (map snd fs) off = Inl e \<Longrightarrow>
   wrapObj tag name (fieldLoop dec fs obj off) = Inl e"
  by (simp add: wrapObj_def fieldLoop_error)



text \<open>
  Assignment on a plain object, as the decoder's \<open>obj[f.name] = v\<close> performs it: the key
  \<open>__proto__\<close> creates no own property, array-index keys are listed first in ascending
  order, and a repeated key keeps its place.
\<close>

lemma assignment_examples:
  "namedFields (Obj [] ObjectPrototype) [''__proto__'', ''b''] [VNum 1, VNum 2] =
     Obj [(''b'', VNum 2)] ObjectPrototype"
  "namedFields (Obj [] ObjectPrototype) [''b'', ''1'', ''0''] [VNum 1, VNum 2, VNum 3] =
     Obj [(''0'', VNum 3), (''1'', VNum 2), (''b'', VNum 1)] ObjectPrototype"
  "namedFields (Obj [] ObjectPrototype) [''a'', ''b'', ''a''] [VNum 1, VNum 2, VNum 3] =
     Obj [(''a'', VNum 3), (''b'', VNum 2)] ObjectPrototype"
  "namedFields (Obj [] ObjectPrototype) [''__proto__'', ''__proto__''] [VNull, VNum 2] =
     Obj [(''__proto__'', VNum 2)] NullPrototype"
  "namedFields (Obj [] ObjectPrototype) [''__proto__'', ''b''] [VObj (Obj [(''x'', VNum 1)] ObjectPrototype), VNum 2] =
     Obj [(''b'', VNum 2)] (ProtoObject (Obj [(''x'', VNum 1)] ObjectPrototype))"
  by (simp_all add: ownSet_def keyBefore_def arrayIndex_def decimalNat_def digitValue_def)

lemma decodeStruct_proto_field:
  "decodeStruct (\<lambda>off ty. decodeType (Suc depth) P [1, 2] off ty idl) 0
     [(''__proto__'', TName ''u8''), (''b'', TName ''u8'')] =
     Inr (Obj [(''b'', VNum 2)] ObjectPrototype, 2)"
  by (simp add: decodeStruct_def decode_u8_at ownSet_def keyBefore_def arrayIndex_def)



lemma flatFieldLoop_keys:
  assumes "flatFieldLoop dec es (Obj [] ObjectPrototype) off = Inr (obj, n)"
  shows "fst ` set (ownProps obj) \<subseteq> {k. Some k \<in> elemName ` set es} \<and>
         {k. Some k \<in> elemName ` set es} - {''__proto__''} \<subseteq> fst ` set (ownProps obj)"
proof -
  from assms obtain fs where fs: "asFields es = Some fs"
    using flatFieldLoop_asFields_ex by blast
  with assms have "fieldLoop dec fs (Obj [] ObjectPrototype) off = Inr (obj, n)"
    by (simp add: flatFieldLoop_asFields)
  then obtain vs where vs: "decodeSeq dec (map snd fs) off = Inr (vs, n)"
    and obj: "obj = namedFields (Obj [] ObjectPrototype) (map fst fs) vs"
    by (auto simp: fieldLoop_decodeSeq split: sum.splits)
  from vs have len: "length vs = length (map fst fs)"
    using decodeSeq_length by fastforce
  have names: "{k. Some k \<in> elemName ` set es} = set (map fst fs)"
    using asFields_names [OF fs] by simp
  have sub: "fst ` set (ownProps obj) \<subseteq> set (map fst fs)"
    using namedFields_keys [of "Obj [] ObjectPrototype" "map fst fs" vs] obj by simp
  have sup: "set (map fst fs) - {''__proto__''} \<subseteq> fst ` set (ownProps obj)"
    using namedFields_contains [OF len] obj by blast
  from sub sup show ?thesis
    unfolding names by blast
qed

text \<open>
  C9. When a variant's \<open>fields\<close> is a flat array \<open>es\<close>, the decoder decodes named struct
  fields exactly when the array is non-empty and its first element is a field object (an
  object with none of the keys \<open>vec\<close>, \<open>option\<close>, \<open>array\<close>, \<open>defined\<close>), and a
  positional tuple in every other case: whenever it returns, the variant's value is an
  object in the first case, whose own keys are names of the field objects and include every
  such name other than \<open>__proto__\<close>, and a list with one entry per element in the second.
  An empty array yields the empty list, with the cursor just past the tag. On an array of
  named fields the result is the named-field value of the decoded fields (a failed read is
  the failure of the enum), and on an array of types it is the list of positional values.
\<close>

theorem flat_array_named_or_positional:
  assumes "off < length bytes" and "unat (bytes ! off) < length variants"
    and "variant = variants ! unat (bytes ! off)"
    and "var_fields variant = Some (FlatArray es)"
  shows "(es = [] \<longrightarrow>
            decodeEnum dec bytes off variants =
              Inr (enumValue (uint (bytes ! off)) (var_name variant) (VList []), off + 1))
   \<and> (\<forall>v n. decodeEnum dec bytes off variants = Inr (v, n) \<longrightarrow>
         (if es \<noteq> [] \<and> isFieldObject (hd es)
          then \<exists>obj. v = enumValue (uint (bytes ! off)) (var_name variant) (VObj obj) \<and>
                 fst ` set (ownProps obj) \<subseteq> {k. Some k \<in> elemName ` set es} \<and>
                 {k. Some k \<in> elemName ` set es} - {''__proto__''} \<subseteq> fst ` set (ownProps obj)
          else \<exists>arr. v = enumValue (uint (bytes ! off)) (var_name variant) (VList arr) \<and>
                 length arr = length es))
   \<and> (\<forall>fs e. es \<noteq> [] \<and> isFieldObject (hd es) \<and> asFields es = Some fs \<and>
          decodeSeq dec (map snd fs) (off + 1) = Inl e \<longrightarrow>
         decodeEnum dec bytes off variants = Inl e)
   \<and> (\<forall>fs vs n. es \<noteq> [] \<and> isFieldObject (hd es) \<and> asFields es = Some fs \<and>
          decodeSeq dec (map snd fs) (off + 1) = Inr (vs, n) \<longrightarrow>
         (\<exists>obj. decodeEnum dec bytes off variants =
                  Inr (enumValue (uint (bytes ! off)) (var_name variant) (VObj obj), n) \<and>
                holdsNamedFields obj (map fst fs) vs \<and>
                (plainNames (map fst fs) \<longrightarrow> obj = Obj (zip (map fst fs) vs) ObjectPrototype)))
   \<and> (\<forall>ts. \<not> (es \<noteq> [] \<and> isFieldObject (hd es)) \<and> asTypes es = Some ts \<longrightarrow>
         decodeEnum dec bytes off variants =
           (case decodeSeq dec ts (off + 1) of
              Inl e \<Rightarrow> Inl e
            | Inr (vs, n) \<Rightarrow> Inr (enumValue (uint (bytes ! off)) (var_name variant) (VList vs), n)))"
proof -
  have unfold: "decodeEnum dec bytes off variants =
      (if es \<noteq> [] \<and> isFieldObject (hd es)
       then wrapObj (uint (bytes ! off)) (var_name variant)
              (flatFieldLoop dec es (Obj [] ObjectPrototype) (off + 1))
       else wrapArr (uint (bytes ! off)) (var_name variant) (flatTupleLoop dec es [] (off + 1)))"
    using assms(3,4) by (simp add: decodeEnum_at [OF assms(1,2)])
  have empty: "es = [] \<longrightarrow>
            decodeEnum dec bytes off variants =
              Inr (enumValue (uint (bytes ! off)) (var_name variant) (VList []), off + 1)"
    by (simp add: unfold wrapArr_def)
  have shape: "\<forall>v n. decodeEnum dec bytes off variants = Inr (v, n) \<longrightarrow>
         (if es \<noteq> [] \<and> isFieldObject (hd es)
          then \<exists>obj. v = enumValue (uint (bytes ! off)) (var_name variant) (VObj obj) \<and>
                 fst ` set (ownProps obj) \<subseteq> {k. Some k \<in> elemName ` set es} \<and>
                 {k. Some k \<in> elemName ` set es} - {''__proto__''} \<subseteq> fst ` set (ownProps obj)
          else \<exists>arr. v = enumValue (uint (bytes ! off)) (var_name variant) (VList arr) \<and>
                 length arr = length es)"
  proof (intro allI impI)
    fix v n
    assume r: "decodeEnum dec bytes off variants = Inr (v, n)"
    show "if es \<noteq> [] \<and> isFieldObject (hd es)
          then \<exists>obj. v = enumValue (uint (bytes ! off)) (var_name variant) (VObj obj) \<and>
                 fst ` set (ownProps obj) \<subseteq> {k. Some k \<in> elemName ` set es} \<and>
                 {k. Some k \<in> elemName ` set es} - {''__proto__''} \<subseteq> fst ` set (ownProps obj)
          else \<exists>arr. v = enumValue (uint (bytes ! off)) (var_name variant) (VList arr) \<and>
                 length arr = length es"
    proof (cases "es \<noteq> [] \<and> isFieldObject (hd es)")
      case True
      with r unfold obtain obj where
        loop: "flatFieldLoop dec es (Obj [] ObjectPrototype) (off + 1) = Inr (obj, n)" and
        v: "v = enumValue (uint (bytes ! off)) (var_name variant) (VObj obj)"
        by (auto simp: wrapObj_def split: sum.splits)
      from flatFieldLoop_keys [OF loop] v True show ?thesis
        by auto
    next
      case False
      with r unfold obtain arr where
        "flatTupleLoop dec es [] (off + 1) = Inr (arr, n)"
        "v = enumValue (uint (bytes ! off)) (var_name variant) (VList arr)"
        by (auto simp: wrapArr_def split: sum.splits)
      with False show ?thesis
        using flatTupleLoop_length [of dec es "[]" "off + 1" arr n] by auto
    qed
  qed
  have failed: "\<forall>fs e. es \<noteq> [] \<and> isFieldObject (hd es) \<and> asFields es = Some fs \<and>
          decodeSeq dec (map snd fs) (off + 1) = Inl e \<longrightarrow>
         decodeEnum dec bytes off variants = Inl e"
    by (auto simp: unfold flatFieldLoop_asFields wrapObj_error)
  have named: "\<forall>fs vs n. es \<noteq> [] \<and> isFieldObject (hd es) \<and> asFields es = Some fs \<and>
          decodeSeq dec (map snd fs) (off + 1) = Inr (vs, n) \<longrightarrow>
         (\<exists>obj. decodeEnum dec bytes off variants =
                  Inr (enumValue (uint (bytes ! off)) (var_name variant) (VObj obj), n) \<and>
                holdsNamedFields obj (map fst fs) vs \<and>
                (plainNames (map fst fs) \<longrightarrow> obj = Obj (zip (map fst fs) vs) ObjectPrototype))"
  proof (intro allI impI)
    fix fs vs n
    assume h: "es \<noteq> [] \<and> isFieldObject (hd es) \<and> asFields es = Some fs \<and>
          decodeSeq dec (map snd fs) (off + 1) = Inr (vs, n)"
    then have "decodeEnum dec bytes off variants =
        wrapObj (uint (bytes ! off)) (var_name variant) (fieldLoop dec fs (Obj [] ObjectPrototype) (off + 1))"
      by (simp add: unfold flatFieldLoop_asFields)
    with h show "\<exists>obj. decodeEnum dec bytes off variants =
                  Inr (enumValue (uint (bytes ! off)) (var_name variant) (VObj obj), n) \<and>
                holdsNamedFields obj (map fst fs) vs \<and>
                (plainNames (map fst fs) \<longrightarrow> obj = Obj (zip (map fst fs) vs) ObjectPrototype)"
      using wrapObj_named [of dec fs "off + 1" vs n "uint (bytes ! off)" "var_name variant"]
      by simp
  qed
  have positional: "\<forall>ts. \<not> (es \<noteq> [] \<and> isFieldObject (hd es)) \<and> asTypes es = Some ts \<longrightarrow>
         decodeEnum dec bytes off variants =
           (case decodeSeq dec ts (off + 1) of
              Inl e \<Rightarrow> Inl e
            | Inr (vs, n) \<Rightarrow> Inr (enumValue (uint (bytes ! off)) (var_name variant) (VList vs), n))"
    by (auto simp: unfold wrapArr_def flatTupleLoop_asTypes tupleLoop_decodeSeq split: sum.splits)
  from empty shape failed named positional show ?thesis by blast
qed

theorem flat_array_named_or_positional_witness:
  "decodeEnum (\<lambda>off ty. decodeType (Suc 0) samplePlatform [1, 3, 4] off ty sampleIdl) [1, 3, 4] 0 shapesEnum =
     Inr (VObj (Obj [(''tag'', VNum 1), (''name'', VStr ''Point''),
                     (''value'', VObj (Obj [(''x'', VNum 3), (''y'', VNum 4)] ObjectPrototype))]
            ObjectPrototype), 3)
   \<and> decodeEnum (\<lambda>off ty. decodeType (Suc 0) samplePlatform [0, 3, 4] off ty sampleIdl) [0, 3, 4] 0 shapesEnum =
     Inr (VObj (Obj [(''tag'', VNum 0), (''name'', VStr ''Pair''),
                     (''value'', VList [VNum 3, VNum 4])] ObjectPrototype), 3)
   \<and> decodeEnum (\<lambda>off ty. decodeType (Suc 0) samplePlatform [2] off ty sampleIdl) [2] 0 shapesEnum =
     Inr (VObj (Obj [(''tag'', VNum 2), (''name'', VStr ''Empty''), (''value'', VList [])]
            ObjectPrototype), 1)"
proof -
  have point: "0 < length [1, 3, 4 :: byte]" "unat ([1, 3, 4 :: byte] ! 0) < length shapesEnum"
    "\<lparr>var_name = ''Point'', var_fields = Some (FlatArray [ElemField ''x'' (TName ''u8''), ElemField ''y'' (TName ''u8'')])\<rparr> =
       shapesEnum ! unat ([1, 3, 4 :: byte] ! 0)"
    "var_fields \<lparr>var_name = ''Point'', var_fields = Some (FlatArray [ElemField ''x'' (TName ''u8''), ElemField ''y'' (TName ''u8'')])\<rparr> =
       Some (FlatArray [ElemField ''x'' (TName ''u8''), ElemField ''y'' (TName ''u8'')])"
    by (simp_all add: shapesEnum_def)
  have pair: "0 < length [0, 3, 4 :: byte]" "unat ([0, 3, 4 :: byte] ! 0) < length shapesEnum"
    "\<lparr>var_name = ''Pair'', var_fields = Some (FlatArray [ElemType (TName ''u8''), ElemType (TName ''u8'')])\<rparr> =
       shapesEnum ! unat ([0, 3, 4 :: byte] ! 0)"
    "var_fields \<lparr>var_name = ''Pair'', var_fields = Some (FlatArray [ElemType (TName ''u8''), ElemType (TName ''u8'')])\<rparr> =
       Some (FlatArray [ElemType (TName ''u8''), ElemType (TName ''u8'')])"
    by (simp_all add: shapesEnum_def)
  have empty: "0 < length [2 :: byte]" "unat ([2 :: byte] ! 0) < length shapesEnum"
    "\<lparr>var_name = ''Empty'', var_fields = Some (FlatArray [])\<rparr> = shapesEnum ! unat ([2 :: byte] ! 0)"
    "var_fields \<lparr>var_name = ''Empty'', var_fields = Some (FlatArray [])\<rparr> = Some (FlatArray [])"
    by (simp_all add: shapesEnum_def)
  have named: "[ElemField ''x'' (TName ''u8''), ElemField ''y'' (TName ''u8'')] \<noteq> [] \<and>
      isFieldObject (hd [ElemField ''x'' (TName ''u8''), ElemField ''y'' (TName ''u8'')]) \<and>
      asFields [ElemField ''x'' (TName ''u8''), ElemField ''y'' (TName ''u8'')] =
        Some [(''x'', TName ''u8''), (''y'', TName ''u8'')] \<and>
      decodeSeq (\<lambda>off ty. decodeType (Suc 0) samplePlatform [1, 3, 4] off ty sampleIdl)
        (map snd [(''x'', TName ''u8''), (''y'', TName ''u8'')]) (0 + 1) = Inr ([VNum 3, VNum 4], 3)"
    by (simp add: decode_u8_at)
  have plain: "plainNames (map fst [(''x'', TName ''u8''), (''y'', TName ''u8'')])"
    by (simp add: plainNames_def arrayIndex_def)
  have positional: "\<not> ([ElemType (TName ''u8''), ElemType (TName ''u8'')] \<noteq> [] \<and>
        isFieldObject (hd [ElemType (TName ''u8''), ElemType (TName ''u8'')])) \<and>
      asTypes [ElemType (TName ''u8''), ElemType (TName ''u8'')] = Some [TName ''u8'', TName ''u8'']"
    by simp
  from flat_array_named_or_positional [OF point, THEN conjunct2, THEN conjunct2, THEN conjunct2,
      THEN conjunct1, THEN spec, THEN spec, THEN spec, THEN mp, OF named] plain
  have p: "decodeEnum (\<lambda>off ty. decodeType (Suc 0) samplePlatform [1, 3, 4] off ty sampleIdl) [1, 3, 4] 0 shapesEnum =
     Inr (enumValue 1 ''Point'' (VObj (Obj [(''x'', VNum 3), (''y'', VNum 4)] ObjectPrototype)), 3)"
    by auto
  from p
    flat_array_named_or_positional
      [where dec = "\<lambda>off ty. decodeType (Suc 0) samplePlatform [0, 3, 4] off ty sampleIdl",
       OF pair, THEN conjunct2, THEN conjunct2, THEN conjunct2, THEN conjunct2,
       THEN spec, THEN mp, OF positional]
    flat_array_named_or_positional
      [where dec = "\<lambda>off ty. decodeType (Suc 0) samplePlatform [2] off ty sampleIdl",
       OF empty, THEN conjunct1, THEN mp, OF refl]
  show ?thesis
    by (simp add: decode_u8_at enumValue_def)
qed

section \<open>Cursor and buffer bounds\<close>

lemma getUint_past: "length view < off + w \<Longrightarrow> getUint w view off = Inl RangeError"
  by (simp add: getUint_def)

lemma getInt_past: "length view < off + w \<Longrightarrow> getInt w view off = Inl RangeError"
  by (simp add: getInt_def)

lemma decode_string_at:
  "off + 4 \<le> length bytes \<Longrightarrow>
   decodeType (Suc depth) P bytes off (TName ''string'') idl =
     (let len = leValue (sliceBytes bytes off (off + 4))
      in Inr (VStr (textDecode P (sliceBytes bytes (off + 4) (off + 4 + len))), off + 4 + len))"
  by (simp add: decodeType.simps readString_def readU32_def advance_def getUint_def sliceBytes_def Let_def)

lemma decode_u32_past:
  "length bytes < off + 4 \<Longrightarrow> decodeType (Suc depth) P bytes off (TName ''u32'') idl = Inl RangeError"
  by (simp add: decodeType.simps numResult_def readU32_def advance_def getUint_past)

lemma advancingD: "advancing dec \<Longrightarrow> dec off ty = Inr (v, n) \<Longrightarrow> off \<le> n"
  by (auto simp: advancing_def)

lemma decodeSeq_mono:
  "advancing dec \<Longrightarrow> decodeSeq dec ts off = Inr (vs, m) \<Longrightarrow> off \<le> m"
proof (induction ts arbitrary: off vs)
  case Nil
  then show ?case by simp
next
  case (Cons t ts)
  from Cons.prems(2) obtain v n vs' where
    d: "dec off t = Inr (v, n)" and r: "decodeSeq dec ts n = Inr (vs', m)"
    by (auto split: sum.splits)
  from Cons.prems(1) d have "off \<le> n" by (rule advancingD)
  moreover from Cons.prems(1) r have "n \<le> m" by (rule Cons.IH)
  ultimately show ?case by simp
qed

lemma flatFieldLoop_mono:
  "advancing dec \<Longrightarrow> flatFieldLoop dec es obj off = Inr (obj', m) \<Longrightarrow> off \<le> m"
proof (induction es arbitrary: obj off)
  case Nil
  then show ?case by simp
next
  case (Cons e es)
  show ?case
  proof (cases e)
    case (ElemField name t)
    with Cons.prems(2) obtain v n where
      d: "dec off t = Inr (v, n)" and r: "flatFieldLoop dec es (obj_set obj name v) n = Inr (obj', m)"
      by (auto split: sum.splits)
    from Cons.prems(1) d have "off \<le> n" by (rule advancingD)
    moreover from Cons.prems(1) r have "n \<le> m" by (rule Cons.IH)
    ultimately show ?thesis by simp
  next
    case (ElemType t)
    with Cons.prems show ?thesis by simp
  qed
qed

lemma flatTupleLoop_mono:
  "advancing dec \<Longrightarrow> flatTupleLoop dec es arr off = Inr (arr', m) \<Longrightarrow> off \<le> m"
proof (induction es arbitrary: arr off)
  case Nil
  then show ?case by simp
next
  case (Cons e es)
  show ?case
  proof (cases e)
    case (ElemType t)
    with Cons.prems(2) obtain v n where
      d: "dec off t = Inr (v, n)" and r: "flatTupleLoop dec es (arr @ [v]) n = Inr (arr', m)"
      by (auto split: sum.splits)
    from Cons.prems(1) d have "off \<le> n" by (rule advancingD)
    moreover from Cons.prems(1) r have "n \<le> m" by (rule Cons.IH)
    ultimately show ?thesis by simp
  next
    case (ElemField name t)
    with Cons.prems show ?thesis by (auto dest: Cons.IH)
  qed
qed

lemma advance_mono: "advance off w r = Inr (v, n) \<Longrightarrow> n = off + w"
  by (auto simp: advance_def split: sum.splits)

lemma readVec_mono:
  "advancing dec \<Longrightarrow> readVec dec bytes off elem = Inr (out, m) \<Longrightarrow> off \<le> m"
  by (auto simp: readVec_def readU32_def readLoop_decodeSeq split: sum.splits
      dest!: advance_mono decodeSeq_mono)

lemma readArray_mono:
  "advancing dec \<Longrightarrow> readArray dec off elem count = Inr (out, m) \<Longrightarrow> off \<le> m"
  by (auto simp: readArray_def readLoop_decodeSeq split: sum.splits dest!: decodeSeq_mono)

lemma decodeStruct_mono:
  "advancing dec \<Longrightarrow> decodeStruct dec off flds = Inr (obj, m) \<Longrightarrow> off \<le> m"
  by (auto simp: decodeStruct_def fieldLoop_decodeSeq split: sum.splits dest!: decodeSeq_mono)

lemma decodeEnum_mono:
  assumes "advancing dec" and "decodeEnum dec bytes off variants = Inr (v, m)"
  shows "off \<le> m"
proof -
  from assms(2) obtain tag where t: "readU8 bytes off = Inr (tag, off + 1)"
    by (auto simp: decodeEnum_def readU8_def split: sum.splits dest!: advance_mono)
  show ?thesis
  proof (cases "length variants \<le> nat tag")
    case True
    with assms(2) t show ?thesis by (simp add: decodeEnum_def)
  next
    case False
    show ?thesis
    proof (cases "var_fields (variants ! nat tag)")
      case None
      with assms(2) t False show ?thesis by (simp add: decodeEnum_def Let_def)
    next
      case (Some vf)
      show ?thesis
      proof (cases vf)
        case (FlatArray es)
        with assms t False Some show ?thesis
          by (auto simp: decodeEnum_def wrapObj_def wrapArr_def Let_def split: sum.splits if_splits
              dest!: flatFieldLoop_mono [OF assms(1)] flatTupleLoop_mono [OF assms(1)])
      next
        case (KindStruct fs)
        with assms t False Some show ?thesis
          by (auto simp: decodeEnum_def wrapObj_def fieldLoop_decodeSeq Let_def split: sum.splits
              dest!: decodeSeq_mono [OF assms(1)])
      next
        case (KindTuple ts)
        with assms t False Some show ?thesis
          by (auto simp: decodeEnum_def wrapArr_def tupleLoop_decodeSeq Let_def split: sum.splits
              dest!: decodeSeq_mono [OF assms(1)])
      next
        case KindOther
        with assms(2) t False Some show ?thesis by (simp add: decodeEnum_def Let_def)
      qed
    qed
  qed
qed

lemma decodeType_advancing: "advancing (\<lambda>off ty. decodeType depth P bytes off ty idl)"
proof (induction depth)
  case 0
  show ?case by (simp add: advancing_def decodeType.simps)
next
  case (Suc depth)
  show ?case
    unfolding advancing_def
  proof (intro allI impI)
    fix off ty v n
    assume r: "decodeType (Suc depth) P bytes off ty idl = Inr (v, n)"
    show "off \<le> n"
    proof (cases ty)
      case (TName s)
      with r Suc show ?thesis
        by (auto simp: decodeType.simps numResult_def bigResult_def readU8_def readI8_def
            readU16_def readI16_def readU32_def readI32_def readU64_def readI64_def readBool_def
            readString_def Let_def
            split: if_splits sum.splits option.splits dest!: advance_mono readVec_mono [OF Suc])
    next
      case (TVec elem)
      with r Suc show ?thesis
        by (auto simp: decodeType.simps Let_def split: sum.splits dest!: readVec_mono [OF Suc])
    next
      case (TOption inner)
      with r Suc show ?thesis
        by (auto simp: decodeType.simps readU8_def Let_def split: sum.splits if_splits
            dest!: advance_mono advancingD [OF Suc])
    next
      case (TArray elem count)
      with r Suc show ?thesis
        by (auto simp: decodeType.simps Let_def split: sum.splits dest!: readArray_mono [OF Suc])
    next
      case (TDefined name)
      with r Suc show ?thesis
        by (auto simp: decodeType.simps Let_def split: sum.splits option.splits TypeDef.splits
            dest!: decodeStruct_mono [OF Suc] decodeEnum_mono [OF Suc])
    qed
  qed
qed

lemma decodeType_cursor_mono:
  "decodeType depth P bytes off ty idl = Inr (v, n) \<Longrightarrow> off \<le> n"
  using decodeType_advancing [of depth P bytes idl] by (auto simp: advancing_def)


lemma sliceBytes_step:
  "off < length bytes \<Longrightarrow>
   sliceBytes bytes off (Suc (off + n)) = bytes ! off # sliceBytes bytes (Suc off) (Suc (off + n))"
  by (simp add: sliceBytes_def Cons_nth_drop_Suc [symmetric])

lemma decodeType_vec:
  "decodeType (Suc depth) P bytes off (TVec elem) idl =
     (case readVec (\<lambda>off' ty'. decodeType depth P bytes off' ty' idl) bytes off elem of
        Inl e \<Rightarrow> Inl e
      | Inr (out, n) \<Rightarrow> Inr (VList out, n))"
  by (simp add: decodeType.simps)

lemma decodeSeq_u8:
  "off + n \<le> length bytes \<Longrightarrow>
   decodeSeq (\<lambda>off' ty. decodeType (Suc depth) P bytes off' ty idl) (replicate n (TName ''u8'')) off =
     Inr (map (\<lambda>b. VNum (uint b)) (sliceBytes bytes off (off + n)), off + n)"
proof (induction n arbitrary: off)
  case 0
  show ?case by (simp add: sliceBytes_def)
next
  case (Suc n)
  from Suc.prems have lt: "off < length bytes" and rest: "Suc off + n \<le> length bytes"
    by simp_all
  show ?case
    using Suc.IH [OF rest] lt by (simp add: decode_u8_at sliceBytes_step)
qed

lemma decode_vec_u8:
  assumes "off + 4 \<le> length bytes"
    and "off + 4 + leValue (sliceBytes bytes off (off + 4)) \<le> length bytes"
  shows "decodeType (Suc (Suc depth)) P bytes off (TVec (TName ''u8'')) idl =
     Inr (VList (map (\<lambda>b. VNum (uint b))
            (sliceBytes bytes (off + 4) (off + 4 + leValue (sliceBytes bytes off (off + 4))))),
          off + 4 + leValue (sliceBytes bytes off (off + 4)))"
  using assms
  by (simp add: decodeType_vec readVec_def readU32_def advance_def getUint_def
      readLoop_decodeSeq decodeSeq_u8 sliceBytes_def [of bytes off])

text \<open>
  C4 (the code departs from the claim). A numeric read past the end of the buffer fails:
  decoding a \<open>u32\<close> from a 3-byte buffer is a \<open>RangeError\<close>, which every caller passes
  on. A string read is not checked: \<open>readString\<close> takes its bytes with \<open>slice\<close>,
  which clamps to the buffer. On the 6-byte buffer \<open>0a 00 00 00 61 62\<close>, whose length
  prefix demands 10 bytes where 2 remain, the decoder returns the text of the 2 remaining
  bytes and the cursor 14 instead of failing.
\<close>

theorem string_overrun_is_truncated:
  "decodeType (Suc depth) P [10, 0, 0, 0, 97, 98] 0 (TName ''string'') idl =
     Inr (VStr (textDecode P [97, 98]), 14)
   \<and> decodeType (Suc depth) P [1, 2, 3] 0 (TName ''u32'') idl = Inl RangeError"
  by (simp add: decode_string_at decode_u32_past sliceBytes_def)

text \<open>
  C6 (the code departs from the claim). The returned cursor is never before the given one
  (\<open>decodeType_cursor_mono\<close>), and a vector of \<open>u8\<close> with count 3 consumes exactly
  4 + 3 = 7 bytes (\<open>decode_vec_u8\<close> in general). But the cursor can exceed the buffer
  length: on the 4-byte buffer \<open>ff ff ff ff\<close> a string read returns the cursor
  4294967299, the unchecked sum of the prefix's end and the declared length.
\<close>

theorem string_cursor_past_buffer_end:
  "decodeType (Suc depth) P [255, 255, 255, 255] 0 (TName ''string'') idl =
     Inr (VStr (textDecode P []), 4294967299)
   \<and> length [255, 255, 255, 255 :: byte] < 4294967299
   \<and> decodeType (Suc (Suc depth)) P [3, 0, 0, 0, 9, 8, 7] 0 (TVec (TName ''u8'')) idl =
     Inr (VList [VNum 9, VNum 8, VNum 7], 7)"
  by (simp add: decode_string_at decode_vec_u8 sliceBytes_def)

section \<open>Unresolved type references\<close>

lemma resolve_missing:
  "resolveDefined noTypesIdl ''Missing'' = None"
  "resolveDefined missingIdl ''Missing'' = Some (StructDef [(''x'', TName ''u8'')])"
  by (simp_all add: resolveDefined_def noTypesIdl_def missingIdl_def)

lemma decodeType_defined_unresolved:
  "resolveDefined idl name = None \<Longrightarrow>
   decodeType (Suc depth) P bytes off (TDefined name) idl = Inr (VNull, off)"
  by (simp add: decodeType.simps)

lemma decodeType_defined_struct:
  "resolveDefined idl name = Some (StructDef flds) \<Longrightarrow>
   decodeType (Suc depth) P bytes off (TDefined name) idl =
     (case decodeStruct (\<lambda>off' ty'. decodeType depth P bytes off' ty' idl) off flds of
        Inl e \<Rightarrow> Inl e
      | Inr (obj, n) \<Rightarrow> Inr (VObj obj, n))"
  by (simp add: decodeType.simps)

lemma unresolved_field_consumes_nothing:
  "resolveDefined idl name = None \<Longrightarrow>
   fieldLoop (\<lambda>off' ty. decodeType (Suc depth) P bytes off' ty idl) ((k, TDefined name) # fs) obj off =
   fieldLoop (\<lambda>off' ty. decodeType (Suc depth) P bytes off' ty idl) fs (obj_set obj k VNull) off"
  by (simp add: decodeType_defined_unresolved)

text \<open>
  C5 (the code departs from the claim). A field of type \<open>defined(name)\<close> with no
  declaration for \<open>name\<close> decodes to \<open>null\<close> for that field only, but the cursor is
  left where it was (\<open>unresolved_field_consumes_nothing\<close>), so the field's bytes are
  not accounted for and the sibling that follows is decoded at the unresolved field's own
  offset. For the fields \<open>a:
  defined(Missing)\<close>, \<open>b: u8\<close> and the bytes \<open>01 02\<close>: without the declaration,
  \<open>b\<close> is read at offset 0 and is 1; with \<open>Missing\<close> declared as \<open>{ x: u8 }\<close>,
  \<open>b\<close> is read at offset 1 and is 2.
\<close>

theorem unresolved_defined_shifts_siblings:
  "decodeStruct (\<lambda>off ty. decodeType (Suc (Suc depth)) P [1, 2] off ty noTypesIdl) 0
     [(''a'', TDefined ''Missing''), (''b'', TName ''u8'')] =
     Inr (Obj [(''a'', VNull), (''b'', VNum 1)] ObjectPrototype, 1)
   \<and> decodeStruct (\<lambda>off ty. decodeType (Suc (Suc depth)) P [1, 2] off ty missingIdl) 0
     [(''a'', TDefined ''Missing''), (''b'', TName ''u8'')] =
     Inr (Obj [(''a'', VObj (Obj [(''x'', VNum 1)] ObjectPrototype)), (''b'', VNum 2)] ObjectPrototype, 2)"
  by (simp add: decodeStruct_def decodeType_defined_unresolved decodeType_defined_struct
      resolve_missing decode_u8_at ownSet_def keyBefore_def arrayIndex_def)

end
